theory Spec2Isabelle
  imports Main "HOL-Library.AList"
begin

section \<open>Distributed sparse matrix-vector product (vexcl/spmat.hpp)\<close>

text \<open>
  The development embeds \<^verbatim>\<open>vex::SpMat\<close> and its CSR store \<^verbatim>\<open>SpMat::SpMatCSR\<close>.
  Conventions of the embedding:
  \<^item> \<^verbatim>\<open>size_t\<close>, \<^verbatim>\<open>idx_t\<close> and \<^verbatim>\<open>column_t\<close> are natural numbers; the subtraction on
    columns is guarded by the source and does not underflow, and the sizes handed to
    \<^verbatim>\<open>std::vector::reserve\<close> are computed modulo \<open>2 ^ 64\<close>, as the source computes them;
  \<^item> \<^verbatim>\<open>reserve\<close> throws \<^verbatim>\<open>std::length_error\<close> (the error \<open>LengthError\<close>) when more than
    \<^verbatim>\<open>max_size()\<close> elements are asked for; an allocation within that bound succeeds;
  \<^item> the template parameter \<^verbatim>\<open>real\<close> is a type variable of a commutative semiring, so
    arithmetic is exact: rounding of floating point numbers is not modelled;
  \<^item> a raw array or an OpenCL buffer is the list of its contents, a read or write
    outside it (undefined behaviour in the source) is the error \<open>OutOfBounds\<close>;
    a buffer that was never allocated is the empty list;
  \<^item> \<^verbatim>\<open>std::set<column_t>\<close> is the strictly increasing list of its elements;
  \<^item> work items of a kernel and the iterations of an OpenMP loop are run one after
    the other in index order; they write disjoint locations;
  \<^item> in \<^verbatim>\<open>mul\<close>, \<^verbatim>\<open>mul_local\<close> and \<^verbatim>\<open>mul_remote\<close> a kernel or a transfer has its effect
    when it is enqueued, on buffers that hold what was last written to them; the
    queues of a device, where the remote kernel waits for the upload of the ghost
    values, are modelled on their own (\<open>step\<close>);
  \<^item> only CPU class devices are covered: their store is \<^verbatim>\<open>SpMatCSR\<close>
    (\<^verbatim>\<open>SpMatHELL\<close> is defined in another file).
\<close>

subsection \<open>Errors, checked accesses and loops\<close>

datatype error = OutOfBounds | AssertionFailed | NullPointer | LengthError

definition rbind :: "error + 'a \<Rightarrow> ('a \<Rightarrow> error + 'b) \<Rightarrow> error + 'b" where
  "rbind m f = (case m of Inl e \<Rightarrow> Inl e | Inr v \<Rightarrow> f v)"

text \<open>\<^verbatim>\<open>for (i = a; i < b; i++) body\<close> is \<open>foldM body [a..<b]\<close>: the loop stops at the
  first failing iteration.\<close>

primrec foldM :: "('i \<Rightarrow> 's \<Rightarrow> error + 's) \<Rightarrow> 'i list \<Rightarrow> 's \<Rightarrow> error + 's" where
  "foldM f [] s = Inr s"
| "foldM f (i # is) s = rbind (f i s) (foldM f is)"

definition rd :: "'a list \<Rightarrow> nat \<Rightarrow> error + 'a" where
  "rd xs i = (if i < length xs then Inr (xs ! i) else Inl OutOfBounds)"

definition wr :: "'a list \<Rightarrow> nat \<Rightarrow> 'a \<Rightarrow> error + 'a list" where
  "wr xs i v = (if i < length xs then Inr (xs[i := v]) else Inl OutOfBounds)"

text \<open>Reading the first \<open>k\<close> elements of an array (the source of a buffer upload).\<close>

definition rd_range :: "'a list \<Rightarrow> nat \<Rightarrow> error + 'a list" where
  "rd_range xs k = (if k \<le> length xs then Inr (take k xs) else Inl OutOfBounds)"

text \<open>Writing the block \<open>vs\<close> into an array from position \<open>pos\<close> on.\<close>

definition wr_range :: "'a list \<Rightarrow> nat \<Rightarrow> 'a list \<Rightarrow> error + 'a list" where
  "wr_range xs pos vs =
     (if pos + length vs \<le> length xs
      then Inr (take pos xs @ vs @ drop (pos + length vs) xs)
      else Inl OutOfBounds)"

subsection \<open>Devices, events and enqueued kernels\<close>

text \<open>\<^verbatim>\<open>num_workgroups(device)\<close> and the work group size of a compiled kernel come from
  the runtime; a device is the pair of the two numbers.\<close>

record device =
  num_workgroups :: nat
  wgsize :: nat

text \<open>An event is named after the transfer or kernel of \<^verbatim>\<open>SpMat::mul\<close> that signals it,
  on the device given.\<close>

datatype event = Gathered nat | Received nat | Uploaded nat

datatype kernel_name = Spmv_set | Spmv_add | Gather_vals_to_send

text \<open>What \<^verbatim>\<open>enqueueNDRangeKernel(kernel, NullRange, g_size, wgsize, &events)\<close> hands
  to the queue: the kernel, the global size and the events it waits for.\<close>

record launch =
  l_kernel :: kernel_name
  l_g_size :: nat
  l_wait :: "event list"

subsection \<open>The CSR block and its kernels\<close>

record 'a csr_buffers =
  row :: "nat list"
  col :: "nat list"
  val :: "'a list"

record 'a SpMatCSR =
  csr_n :: nat
  has_loc :: bool
  has_rem :: bool
  loc :: "'a csr_buffers"
  rem :: "'a csr_buffers"

definition no_buffers :: "'a csr_buffers" where
  "no_buffers = \<lparr>row = [], col = [], val = []\<rparr>"

text \<open>The inner loop of both kernels: \<^verbatim>\<open>sum += val[j] * x[col[j]]\<close> for
  \<^verbatim>\<open>j\<close> from \<^verbatim>\<open>row[i]\<close> to \<^verbatim>\<open>row[i + 1]\<close>.\<close>

definition row_sum :: "'a::comm_semiring_0 csr_buffers \<Rightarrow> 'a list \<Rightarrow> nat \<Rightarrow> error + 'a" where
  "row_sum b x i =
     rbind (rd (row b) i) (\<lambda>beg.
     rbind (rd (row b) (i + 1)) (\<lambda>end.
       foldM (\<lambda>j sum.
           rbind (rd (val b) j) (\<lambda>v.
           rbind (rd (col b) j) (\<lambda>c.
           rbind (rd x c) (\<lambda>xc. Inr (sum + v * xc)))))
         [beg..<end] 0))"

text \<open>One work item of \<^verbatim>\<open>spmv_set\<close> / \<^verbatim>\<open>spmv_add\<close>: it owns the rows of its chunk.\<close>

definition chunk :: "nat \<Rightarrow> nat \<Rightarrow> nat \<Rightarrow> nat list" where
  "chunk n g_size gid =
     (let chunk_size = (n + g_size - 1) div g_size;
          chunk_start = gid * chunk_size;
          chunk_end = min n (chunk_start + chunk_size)
      in [chunk_start..<chunk_end])"

definition spmv_set_row ::
  "'a::comm_semiring_0 csr_buffers \<Rightarrow> 'a list \<Rightarrow> 'a \<Rightarrow> nat \<Rightarrow> 'a list \<Rightarrow> error + 'a list" where
  "spmv_set_row b x alpha i y = rbind (row_sum b x i) (\<lambda>sum. wr y i (alpha * sum))"

definition spmv_add_row ::
  "'a::comm_semiring_0 csr_buffers \<Rightarrow> 'a list \<Rightarrow> 'a \<Rightarrow> nat \<Rightarrow> 'a list \<Rightarrow> error + 'a list" where
  "spmv_add_row b x alpha i y =
     rbind (row_sum b x i) (\<lambda>sum.
     rbind (rd y i) (\<lambda>yi. wr y i (yi + alpha * sum)))"

definition spmv_set ::
  "nat \<Rightarrow> nat \<Rightarrow> 'a::comm_semiring_0 csr_buffers \<Rightarrow> 'a list \<Rightarrow> 'a list \<Rightarrow> 'a \<Rightarrow> error + 'a list" where
  "spmv_set g_size n b x y alpha =
     foldM (\<lambda>gid. foldM (spmv_set_row b x alpha) (chunk n g_size gid)) [0..<g_size] y"

definition spmv_add ::
  "nat \<Rightarrow> nat \<Rightarrow> 'a::comm_semiring_0 csr_buffers \<Rightarrow> 'a list \<Rightarrow> 'a list \<Rightarrow> 'a \<Rightarrow> error + 'a list" where
  "spmv_add g_size n b x y alpha =
     foldM (\<lambda>gid. foldM (spmv_add_row b x alpha) (chunk n g_size gid)) [0..<g_size] y"

text \<open>Running an enqueued kernel of the CSR store on its arguments.\<close>

definition run_spmv ::
  "launch \<Rightarrow> nat \<Rightarrow> 'a::comm_semiring_0 csr_buffers \<Rightarrow> 'a list \<Rightarrow> 'a list \<Rightarrow> 'a \<Rightarrow> error + 'a list" where
  "run_spmv l n b x y alpha =
     (if l_kernel l = Spmv_add then spmv_add (l_g_size l) n b x y alpha
      else spmv_set (l_g_size l) n b x y alpha)"

subsection \<open>\<^verbatim>\<open>SpMatCSR::mul_local\<close> and \<^verbatim>\<open>SpMatCSR::mul_remote\<close>\<close>

text \<open>The kernel launch each method enqueues, if any. The flag \<^verbatim>\<open>append\<close> of the source is
  \<open>app\<close> here.\<close>

definition mul_local_launch :: "device \<Rightarrow> 'a SpMatCSR \<Rightarrow> bool \<Rightarrow> launch option" where
  "mul_local_launch dev A app =
     (if has_loc A then
        (if app
         then Some \<lparr>l_kernel = Spmv_add, l_g_size = num_workgroups dev * wgsize dev, l_wait = []\<rparr>
         else Some \<lparr>l_kernel = Spmv_set, l_g_size = num_workgroups dev * wgsize dev, l_wait = []\<rparr>)
      else None)"

definition mul_local ::
  "device \<Rightarrow> 'a::comm_semiring_0 SpMatCSR \<Rightarrow> 'a list \<Rightarrow> 'a list \<Rightarrow> 'a \<Rightarrow> bool \<Rightarrow> error + 'a list" where
  "mul_local dev A x y alpha app =
     (case mul_local_launch dev A app of
        Some l \<Rightarrow> run_spmv l (csr_n A) (loc A) x y alpha
      | None \<Rightarrow> if \<not> app then Inr (map (\<lambda>_. 0) y) else Inr y)"

definition mul_remote_launch :: "device \<Rightarrow> 'a SpMatCSR \<Rightarrow> event list \<Rightarrow> launch option" where
  "mul_remote_launch dev A event =
     (if \<not> has_rem A then None
      else Some \<lparr>l_kernel = Spmv_add, l_g_size = num_workgroups dev * wgsize dev, l_wait = event\<rparr>)"

definition mul_remote ::
  "device \<Rightarrow> 'a::comm_semiring_0 SpMatCSR \<Rightarrow> 'a list \<Rightarrow> 'a list \<Rightarrow> 'a \<Rightarrow> event list \<Rightarrow> error + 'a list" where
  "mul_remote dev A x y alpha event =
     (case mul_remote_launch dev A event of
        None \<Rightarrow> Inr y
      | Some l \<Rightarrow> run_spmv l (csr_n A) (rem A) x y alpha)"

subsection \<open>The queues of a device\<close>

text \<open>Modelled from the spec: the queues and events of the device runtime are not part
  of this file. As section 5 of the spec has it, a device has one stream for its
  kernels (\<^verbatim>\<open>queue[d]\<close>) and a secondary stream for the transfers of ghost values
  (\<^verbatim>\<open>squeue[d]\<close>); within one stream the operations execute in issue order; an
  operation enqueued with a list of events starts only when all of them are
  complete, and a transfer that signals an event completes it when the data is in
  the buffer. The state of a device is the ghost buffer \<^verbatim>\<open>exc[d].rx\<close>, the part
  \<^verbatim>\<open>y(d)\<close> of the output, the events completed so far and the operations pending in
  the two streams. An operation is a non-blocking upload of host values into the
  ghost buffer that signals an event, or a kernel of the remote block: its launch
  and the arguments \<^verbatim>\<open>n\<close>, the CSR block and \<^verbatim>\<open>alpha\<close> set on it, its \<^verbatim>\<open>x\<close> and \<^verbatim>\<open>y\<close>
  being the ghost buffer and the part of the output.\<close>

datatype 'a command =
    WriteBuffer "'a list" event
  | NDRangeKernel launch nat "'a csr_buffers" 'a

record 'a device_state =
  ghost_buffer :: "'a list"
  out_buffer :: "'a list"
  completed :: "event list"
  transfers :: "'a command list"
  kernels :: "'a command list"

text \<open>One operation at the head of a stream executes: a transfer at any time, a
  kernel when the events of its wait list are complete. The kernel reads the ghost
  buffer as it is at that moment; a kernel that would leave a buffer (undefined
  behaviour in the source) does not execute.\<close>

inductive step :: "'a::comm_semiring_0 device_state \<Rightarrow> 'a device_state \<Rightarrow> bool" where
  transfer:
    "transfers s = WriteBuffer vs e # cs
     \<Longrightarrow> step s (s\<lparr>ghost_buffer := vs, completed := e # completed s, transfers := cs\<rparr>)"
| kernel:
    "kernels s = NDRangeKernel l n b alpha # cs
     \<Longrightarrow> set (l_wait l) \<subseteq> set (completed s)
     \<Longrightarrow> run_spmv l n b (ghost_buffer s) (out_buffer s) alpha = Inr y'
     \<Longrightarrow> step s (s\<lparr>out_buffer := y', kernels := cs\<rparr>)"

code_pred step .

text \<open>\<^verbatim>\<open>squeue[d].enqueueWriteBuffer(exc[d].rx, CL_FALSE, ..., vals, 0, &event)\<close> of
  \<^verbatim>\<open>SpMat::mul\<close>, and \<^verbatim>\<open>SpMatCSR::mul_remote\<close> on the queues: it returns at once without
  a remote block, and else hands to \<^verbatim>\<open>queue[d]\<close> the launch of \<open>mul_remote_launch\<close>
  with the arguments set on the kernel. (\<open>mul_remote\<close> above is the result of that
  kernel once it has run on a ghost buffer that holds \<open>x\<close>.)\<close>

definition enqueueWriteBuffer :: "'a list \<Rightarrow> event \<Rightarrow> 'a device_state \<Rightarrow> 'a device_state" where
  "enqueueWriteBuffer vs e s = s\<lparr>transfers := transfers s @ [WriteBuffer vs e]\<rparr>"

definition enqueue_mul_remote ::
  "device \<Rightarrow> 'a SpMatCSR \<Rightarrow> 'a \<Rightarrow> event list \<Rightarrow> 'a device_state \<Rightarrow> 'a device_state" where
  "enqueue_mul_remote dev A alpha event s =
     (case mul_remote_launch dev A event of
        None \<Rightarrow> s
      | Some l \<Rightarrow> s\<lparr>kernels := kernels s @ [NDRangeKernel l (csr_n A) (rem A) alpha]\<rparr>)"

subsection \<open>The exchange planner: \<^verbatim>\<open>SpMat::setup_exchange\<close>\<close>

record 'a exdata =
  cols_to_recv :: "nat list"
  vals_to_recv :: "'a list"
  cols_to_send :: "nat list"
  vals_to_send :: "'a list"
  exc_rx :: "'a list"

text \<open>The members of \<^verbatim>\<open>SpMat\<close>. The field \<open>exc_rx\<close> above is \<^verbatim>\<open>exdata::rx\<close>; the
  secondary queues and the event vectors hold no data of their own.\<close>

record 'a SpMat =
  queue :: "device list"
  part :: "nat list"
  mtx :: "'a SpMatCSR option list"
  exc :: "'a exdata list"
  cidx :: "nat list"
  rx :: "'a list"
  nrows :: nat
  ncols :: nat
  nnz :: nat

definition no_exdata :: "'a exdata" where
  "no_exdata = \<lparr>cols_to_recv = [], vals_to_recv = [], cols_to_send = [], vals_to_send = [],
     exc_rx = []\<rparr>"

text \<open>\<^verbatim>\<open>std::set::insert\<close> on the increasing list of the elements.\<close>

definition set_insert :: "nat \<Rightarrow> nat list \<Rightarrow> nat list" where
  "set_insert c s = (if c \<in> set s then s else insort c s)"

text \<open>Building the ghost set of one device (the three nested loops). The CSR input
  arrays \<^verbatim>\<open>row\<close>, \<^verbatim>\<open>col\<close>, \<^verbatim>\<open>val\<close> are passed together as \<open>M\<close>.\<close>

definition ghost_step :: "nat \<Rightarrow> nat \<Rightarrow> nat list \<Rightarrow> nat \<Rightarrow> nat list \<Rightarrow> error + nat list" where
  "ghost_step xbeg xend cs j s =
     rbind (rd cs j) (\<lambda>c. Inr (if c < xbeg \<or> xend \<le> c then set_insert c s else s))"

definition ghost_row ::
  "'a csr_buffers \<Rightarrow> nat \<Rightarrow> nat \<Rightarrow> nat \<Rightarrow> nat list \<Rightarrow> error + nat list" where
  "ghost_row M xbeg xend i s =
     rbind (rd (row M) i) (\<lambda>jb.
     rbind (rd (row M) (i + 1)) (\<lambda>je.
       foldM (ghost_step xbeg xend (col M)) [jb..<je] s))"

definition ghost_set :: "'a csr_buffers \<Rightarrow> nat list \<Rightarrow> nat list \<Rightarrow> nat \<Rightarrow> error + nat list" where
  "ghost_set M prt xpart d =
     foldM (ghost_row M (xpart ! d) (xpart ! (d + 1))) [prt ! d..<prt ! (d + 1)] []"

definition ghost_sets ::
  "'a csr_buffers \<Rightarrow> nat list \<Rightarrow> nat list \<Rightarrow> nat \<Rightarrow> error + nat list list" where
  "ghost_sets M prt xpart D =
     foldM (\<lambda>d remote_cols. rbind (ghost_set M prt xpart d) (\<lambda>s. Inr (remote_cols[d := s])))
       [0..<D] (replicate D [])"

text \<open>The complete set of points to be exchanged, copied to a vector.\<close>

definition send_list :: "nat list list \<Rightarrow> nat list" where
  "send_list remote_cols = fold (\<lambda>s cols_to_send_s. fold set_insert s cols_to_send_s) remote_cols []"

text \<open>\<^verbatim>\<open>if (remote_cols[d].count(cols_to_send[i])) exc[d].cols_to_recv[j++] = i\<close>\<close>

definition recv_step ::
  "nat list \<Rightarrow> nat list \<Rightarrow> nat \<Rightarrow> nat list \<times> nat \<Rightarrow> error + nat list \<times> nat" where
  "recv_step cols s i = (\<lambda>(recv, j).
     if cols ! i \<in> set s then rbind (wr recv j i) (\<lambda>recv'. Inr (recv', j + 1))
     else Inr (recv, j))"

definition setup_recv :: "nat list \<Rightarrow> nat list \<Rightarrow> 'a::zero exdata \<Rightarrow> error + 'a exdata" where
  "setup_recv cols s e =
     (let rcols = length s in
      if rcols \<noteq> 0 then
        rbind (foldM (recv_step cols s) [0..<length cols] (replicate rcols 0, 0)) (\<lambda>(recv, j).
          Inr (e\<lparr>cols_to_recv := recv, vals_to_recv := replicate rcols 0,
                 exc_rx := replicate rcols 0\<rparr>))
      else Inr e)"

text \<open>\<^verbatim>\<open>std::lower_bound\<close> on the positions \<open>lo..<hi\<close> of a vector: the bisection
  of the standard library.\<close>

function lower_bound :: "nat list \<Rightarrow> nat \<Rightarrow> nat \<Rightarrow> nat \<Rightarrow> nat" where
  "lower_bound xs lo hi v =
     (if lo < hi then
        (let mid = lo + (hi - lo) div 2 in
         if xs ! mid < v then lower_bound xs (mid + 1) hi v
         else lower_bound xs lo mid v)
      else lo)"
  by pat_completeness auto
termination
  by (relation "measure (\<lambda>(xs, lo, hi, v). hi - lo)") auto

definition cidx_step :: "nat list \<Rightarrow> nat list \<Rightarrow> nat \<Rightarrow> nat list \<times> nat \<Rightarrow> nat list \<times> nat" where
  "cidx_step cols xpart d = (\<lambda>(ci, beg).
     let p = lower_bound cols beg (length cols) (xpart ! d) in (ci[d := p], p))"

definition build_cidx :: "nat list \<Rightarrow> nat list \<Rightarrow> nat \<Rightarrow> nat list" where
  "build_cidx cols xpart D = fst (fold (cidx_step cols xpart) [0..<D + 1] (replicate (D + 1) 0, 0))"

text \<open>Rebasing the columns a device sends and uploading them. The vector
  \<^verbatim>\<open>cols_to_send\<close> is changed in place; the new buffers hold zeros until written.\<close>

definition rebase_dev ::
  "nat list \<Rightarrow> nat list \<Rightarrow> nat \<Rightarrow> nat list \<times> 'a::zero exdata list \<Rightarrow> nat list \<times> 'a exdata list" where
  "rebase_dev ci xpart d = (\<lambda>(cols, ex).
     let ncols = ci ! (d + 1) - ci ! d in
     if ncols \<noteq> 0 then
       (let cols' = fold (\<lambda>i c. c[i := c ! i - xpart ! d]) [ci ! d..<ci ! (d + 1)] cols
        in (cols', ex[d := (ex ! d)\<lparr>cols_to_send := take ncols (drop (ci ! d) cols'),
                                      vals_to_send := replicate ncols 0\<rparr>]))
     else (cols, ex))"

definition setup_exchange ::
  "'a::zero SpMat \<Rightarrow> nat list \<Rightarrow> 'b csr_buffers \<Rightarrow> error + nat list list \<times> 'a SpMat" where
  "setup_exchange A xpart M =
     (let D = length (queue A) in
      if D \<le> 1 then Inr (replicate D [], A)
      else
        rbind (ghost_sets M (part A) xpart D) (\<lambda>remote_cols.
          let cols = send_list remote_cols in
          if length cols \<noteq> 0 then
            rbind (foldM (\<lambda>d ex. rbind (setup_recv cols (remote_cols ! d) (ex ! d))
                      (\<lambda>e. Inr (ex[d := e]))) [0..<D] (exc A)) (\<lambda>ex.
              let ci = build_cidx cols xpart D;
                  (cols', ex') = fold (rebase_dev ci xpart) [0..<D] (cols, ex)
              in Inr (remote_cols,
                      A\<lparr>exc := ex', cidx := ci, rx := replicate (length cols) 0\<rparr>))
          else Inr (remote_cols, A)))"

subsection \<open>The constructor of \<^verbatim>\<open>SpMatCSR\<close>\<close>

text \<open>The renumbering map \<^verbatim>\<open>r2l\<close>: each ghost column, in increasing order, gets the
  size of the map so far. The hash map is a list of pairs with distinct keys.\<close>

definition r2l_of :: "nat list \<Rightarrow> (nat \<times> nat) list" where
  "r2l_of remote_cols = fold (\<lambda>c r2l. AList.update c (length r2l) r2l) remote_cols []"

record 'a split_state =
  lrow :: "nat list"
  lcol :: "nat list"
  lval :: "'a list"
  rrow :: "nat list"
  rcol :: "nat list"
  rval :: "'a list"

text \<open>One nonzero of the renumbering pass, with the assertion of the remote branch.\<close>

definition split_nz ::
  "nat \<Rightarrow> nat \<Rightarrow> (nat \<times> nat) list \<Rightarrow> 'a csr_buffers \<Rightarrow> nat \<Rightarrow> 'a split_state
   \<Rightarrow> error + 'a split_state" where
  "split_nz xbeg xend r2l M j s =
     rbind (rd (col M) j) (\<lambda>c.
       if xbeg \<le> c \<and> c < xend then
         rbind (rd (val M) j) (\<lambda>v.
           Inr (s\<lparr>lcol := lcol s @ [c - xbeg], lval := lval s @ [v]\<rparr>))
       else
         (case map_of r2l c of
            None \<Rightarrow> Inl AssertionFailed
          | Some k \<Rightarrow>
              rbind (rd (val M) j) (\<lambda>v.
                Inr (s\<lparr>rcol := rcol s @ [k], rval := rval s @ [v]\<rparr>))))"

definition split_row ::
  "nat \<Rightarrow> nat \<Rightarrow> (nat \<times> nat) list \<Rightarrow> 'a csr_buffers \<Rightarrow> nat \<Rightarrow> 'a split_state
   \<Rightarrow> error + 'a split_state" where
  "split_row xbeg xend r2l M i s =
     rbind (rd (row M) i) (\<lambda>jb.
     rbind (rd (row M) (i + 1)) (\<lambda>je.
     rbind (foldM (split_nz xbeg xend r2l M) [jb..<je] s) (\<lambda>s'.
       Inr (s'\<lparr>lrow := lrow s' @ [length (lcol s')], rrow := rrow s' @ [length (rcol s')]\<rparr>))))"

text \<open>The difference of two \<^verbatim>\<open>size_t\<close> values wraps modulo \<open>2 ^ 64\<close>. \<^verbatim>\<open>max_size()\<close> of a
  vector of 8 byte elements (\<^verbatim>\<open>size_t\<close>, \<^verbatim>\<open>double\<close>) on a 64 bit platform is
  \<^verbatim>\<open>PTRDIFF_MAX / 8\<close>.\<close>

definition size_range :: int where
  "size_range = 2 ^ 64"

definition size_sub :: "nat \<Rightarrow> nat \<Rightarrow> int" where
  "size_sub a b = (int a - int b) mod size_range"

definition max_size :: int where
  "max_size = 2 ^ 60 - 1"

definition reserve :: "int \<Rightarrow> error + unit" where
  "reserve k = (if max_size < k then Inl LengthError else Inr ())"

text \<open>The \<^verbatim>\<open>reserve\<close> calls of the renumbering pass, in the order of the source:
  \<^verbatim>\<open>lrow.reserve(end - beg + 1)\<close>, \<^verbatim>\<open>lcol\<close> and \<^verbatim>\<open>lval\<close> with \<^verbatim>\<open>row[end] - row[beg]\<close>, and
  the same for the remote vectors when there are ghost columns.\<close>

definition reserve_buffers :: "nat \<Rightarrow> nat \<Rightarrow> 'a csr_buffers \<Rightarrow> nat list \<Rightarrow> error + unit" where
  "reserve_buffers beg en M remote_cols =
     rbind (reserve ((size_sub en beg + 1) mod size_range)) (\<lambda>_.
     rbind (rd (row M) en) (\<lambda>row_end.
     rbind (rd (row M) beg) (\<lambda>row_beg.
     rbind (reserve (size_sub row_end row_beg)) (\<lambda>_.
     rbind (reserve (size_sub row_end row_beg)) (\<lambda>_.
       if remote_cols \<noteq> [] then
         rbind (reserve ((size_sub en beg + 1) mod size_range)) (\<lambda>_.
         rbind (reserve (size_sub row_end row_beg)) (\<lambda>_.
           reserve (size_sub row_end row_beg)))
       else Inr ())))))"

definition SpMatCSR_new ::
  "nat \<Rightarrow> nat \<Rightarrow> nat \<Rightarrow> nat \<Rightarrow> 'a csr_buffers \<Rightarrow> nat list \<Rightarrow> error + 'a SpMatCSR" where
  "SpMatCSR_new beg en xbeg xend M remote_cols =
     (let n = en - beg in
      if beg = 0 \<and> remote_cols = [] then
        rbind (rd (row M) n) (\<lambda>row_n.
          if row_n \<noteq> 0 then
            rbind (rd_range (row M) (n + 1)) (\<lambda>r.
            rbind (rd_range (col M) row_n) (\<lambda>c.
            rbind (rd_range (val M) row_n) (\<lambda>v.
              Inr \<lparr>csr_n = n, has_loc = True, has_rem = False,
                   loc = \<lparr>row = r, col = c, val = v\<rparr>, rem = no_buffers\<rparr>)))
          else
            Inr \<lparr>csr_n = n, has_loc = False, has_rem = False,
                 loc = no_buffers, rem = no_buffers\<rparr>)
      else
        rbind (reserve_buffers beg en M remote_cols) (\<lambda>_.
         let r2l = r2l_of remote_cols;
             s0 = \<lparr>lrow = [0], lcol = [], lval = [],
                   rrow = (if remote_cols \<noteq> [] then [0] else []), rcol = [], rval = []\<rparr>
         in rbind (foldM (split_row xbeg xend r2l M) [beg..<en] s0) (\<lambda>s.
              Inr \<lparr>csr_n = n, has_loc = (last (lrow s) \<noteq> 0), has_rem = (remote_cols \<noteq> []),
                   loc = (if last (lrow s) \<noteq> 0
                          then \<lparr>row = lrow s, col = lcol s, val = lval s\<rparr> else no_buffers),
                   rem = (if remote_cols \<noteq> []
                          then \<lparr>row = rrow s, col = rcol s, val = rval s\<rparr> else no_buffers)\<rparr>)))"

subsection \<open>The constructor of \<^verbatim>\<open>SpMat\<close>\<close>

text \<open>\<^verbatim>\<open>partition(n, queue)\<close> and \<^verbatim>\<open>partition(m, queue)\<close> are defined with the vector
  class, outside this file: the row boundaries \<open>prt\<close> and the column boundaries
  \<open>xpart\<close> they return are parameters of the constructor.\<close>

definition make_strip ::
  "nat list \<Rightarrow> 'a csr_buffers \<Rightarrow> nat list list \<Rightarrow> nat \<Rightarrow> 'a SpMat \<Rightarrow> error + 'a SpMat" where
  "make_strip xpart M remote_cols d A =
     (if part A ! (d + 1) > part A ! d then
        rbind (SpMatCSR_new (part A ! d) (part A ! (d + 1)) (xpart ! d) (xpart ! (d + 1)) M
                 (remote_cols ! d)) (\<lambda>S.
          Inr (A\<lparr>mtx := (mtx A)[d := Some S]\<rparr>))
      else Inr A)"

text \<open>The member initialisers: no store, no exchange data yet.\<close>

definition SpMat_init :: "device list \<Rightarrow> nat list \<Rightarrow> nat \<Rightarrow> nat \<Rightarrow> nat \<Rightarrow> 'a SpMat" where
  "SpMat_init q prt n m row_n =
     \<lparr>queue = q, part = prt, mtx = replicate (length q) None,
      exc = replicate (length q) no_exdata, cidx = [], rx = [],
      nrows = n, ncols = m, nnz = row_n\<rparr>"

definition SpMat_new ::
  "device list \<Rightarrow> nat list \<Rightarrow> nat list \<Rightarrow> nat \<Rightarrow> nat \<Rightarrow> 'a::zero csr_buffers \<Rightarrow> error + 'a SpMat" where
  "SpMat_new q prt xpart n m M =
     rbind (rd (row M) n) (\<lambda>row_n.
     rbind (setup_exchange (SpMat_init q prt n m row_n) xpart M) (\<lambda>(remote_cols, A).
       foldM (make_strip xpart M remote_cols) [0..<length q] A))"

subsection \<open>\<^verbatim>\<open>SpMat::mul\<close>\<close>

text \<open>Modelled from the spec: \<^verbatim>\<open>alignup\<close> is defined in the utility header, which is
  not part of this file; the gather kernel is launched on a global size that covers
  every entry to send, the count rounded up to a multiple of the work group size.\<close>

definition alignup :: "nat \<Rightarrow> nat \<Rightarrow> nat" where
  "alignup n m = (if n mod m \<noteq> 0 then n - n mod m + m else n)"

text \<open>The kernel \<^verbatim>\<open>gather_vals_to_send\<close>, one work item for each \<open>i\<close>.\<close>

definition gather_vals_to_send ::
  "nat \<Rightarrow> nat \<Rightarrow> 'a list \<Rightarrow> nat list \<Rightarrow> 'a list \<Rightarrow> error + 'a list" where
  "gather_vals_to_send g_size n vals cols out =
     foldM (\<lambda>i out.
         if i < n then rbind (rd cols i) (\<lambda>c. rbind (rd vals c) (\<lambda>v. wr out i v))
         else Inr out)
       [0..<g_size] out"

text \<open>A distributed vector is the list of its parts, one for each device:
  \<open>x ! d\<close> is \<^verbatim>\<open>x(d)\<close>.\<close>

definition gather_dev :: "'a list list \<Rightarrow> nat \<Rightarrow> 'a SpMat \<Rightarrow> error + 'a SpMat" where
  "gather_dev x d A =
     (let ncols = cidx A ! (d + 1) - cidx A ! d in
      if ncols \<noteq> 0 then
        (let e = exc A ! d in
         rbind (gather_vals_to_send (alignup ncols (wgsize (queue A ! d))) ncols (x ! d)
                  (cols_to_send e) (vals_to_send e)) (\<lambda>vs.
         rbind (rd_range vs ncols) (\<lambda>got.
         rbind (wr_range (rx A) (cidx A ! d) got) (\<lambda>rx'.
           Inr (A\<lparr>exc := (exc A)[d := e\<lparr>vals_to_send := vs\<rparr>], rx := rx'\<rparr>)))))
      else Inr A)"

definition local_dev ::
  "'a::comm_semiring_0 SpMat \<Rightarrow> 'a list list \<Rightarrow> 'a \<Rightarrow> bool \<Rightarrow> nat \<Rightarrow> 'a list list
   \<Rightarrow> error + 'a list list" where
  "local_dev A x alpha app d y =
     (case mtx A ! d of
        None \<Rightarrow> Inr y
      | Some S \<Rightarrow>
          rbind (mul_local (queue A ! d) S (x ! d) (y ! d) alpha app) (\<lambda>yd. Inr (y[d := yd])))"

text \<open>\<^verbatim>\<open>exc[d].vals_to_recv[i] = rx[exc[d].cols_to_recv[i]]\<close> for every \<open>i\<close>.\<close>

definition redistribute :: "nat list \<Rightarrow> 'a list \<Rightarrow> 'a list \<Rightarrow> error + 'a list" where
  "redistribute recv rxs vals =
     foldM (\<lambda>i vals. rbind (rd recv i) (\<lambda>p. rbind (rd rxs p) (\<lambda>v. wr vals i v)))
       [0..<length recv] vals"

definition remote_dev ::
  "'a \<Rightarrow> nat \<Rightarrow> 'a::comm_semiring_0 SpMat \<times> 'a list list \<Rightarrow> error + 'a SpMat \<times> 'a list list" where
  "remote_dev alpha d = (\<lambda>(A, y).
     let e = exc A ! d in
     if length (cols_to_recv e) \<noteq> 0 then
       rbind (redistribute (cols_to_recv e) (rx A) (vals_to_recv e)) (\<lambda>vals.
         let e' = e\<lparr>vals_to_recv := vals, exc_rx := vals\<rparr> in
         (case mtx A ! d of
            None \<Rightarrow> Inl NullPointer
          | Some S \<Rightarrow>
              rbind (mul_remote (queue A ! d) S (exc_rx e') (y ! d) alpha [Uploaded d]) (\<lambda>yd.
                Inr (A\<lparr>exc := (exc A)[d := e']\<rparr>, y[d := yd]))))
     else Inr (A, y))"

definition mul ::
  "'a::comm_semiring_0 SpMat \<Rightarrow> 'a list list \<Rightarrow> 'a list list \<Rightarrow> 'a \<Rightarrow> bool
   \<Rightarrow> error + 'a SpMat \<times> 'a list list" where
  "mul A x y alpha app =
     (let D = length (queue A) in
      rbind (if length (rx A) \<noteq> 0 then foldM (gather_dev x) [0..<D] A else Inr A) (\<lambda>A'.
      rbind (foldM (local_dev A' x alpha app) [0..<D] y) (\<lambda>y'.
        if length (rx A') \<noteq> 0 then foldM (remote_dev alpha) [0..<D] (A', y')
        else Inr (A', y'))))"

section \<open>Specification side\<close>

text \<open>The product of row \<open>i\<close> of a CSR block with a vector, as a dense reference
  computes it.\<close>

definition dot_row :: "'a::comm_semiring_0 csr_buffers \<Rightarrow> 'a list \<Rightarrow> nat \<Rightarrow> 'a" where
  "dot_row b x i = (\<Sum>j\<leftarrow>[row b ! i..<row b ! (i + 1)]. val b ! j * x ! (col b ! j))"

text \<open>The first \<open>n\<close> rows of block \<open>b\<close> lie inside its buffers and address only
  entries of \<open>x\<close>.\<close>

definition block_ok :: "nat \<Rightarrow> 'a csr_buffers \<Rightarrow> 'b list \<Rightarrow> bool" where
  "block_ok n b x \<longleftrightarrow>
     n < length (row b) \<and>
     (\<forall>i<n. \<forall>j\<in>set [row b ! i..<row b ! (i + 1)].
        j < length (val b) \<and> j < length (col b) \<and> col b ! j < length x)"

text \<open>The contract of the partitioner: \<open>D + 1\<close> non-decreasing boundaries from \<open>0\<close>
  to \<open>N\<close>.\<close>

definition part_ok :: "nat \<Rightarrow> nat \<Rightarrow> nat list \<Rightarrow> bool" where
  "part_ok D N p \<longleftrightarrow> length p = D + 1 \<and> sorted p \<and> p ! 0 = 0 \<and> p ! D = N"

text \<open>The input contract of the constructor: \<open>n + 1\<close> monotonic row offsets, as many
  columns and values as the last offset says, columns below \<open>m\<close>.\<close>

definition csr_ok :: "nat \<Rightarrow> 'a csr_buffers \<Rightarrow> bool" where
  "csr_ok n M \<longleftrightarrow>
     length (row M) = n + 1 \<and> sorted (row M) \<and> row M ! n = length (col M) \<and>
     length (val M) = length (col M)"

definition cols_ok :: "nat \<Rightarrow> 'a csr_buffers \<Rightarrow> bool" where
  "cols_ok m M \<longleftrightarrow> list_all (\<lambda>c. c < m) (col M)"

text \<open>The row offsets and the nonzeros of the input fit into a vector: what every
  input that is held in the memory of a 64 bit host satisfies.\<close>

definition vectors_fit :: "nat \<Rightarrow> 'a csr_buffers \<Rightarrow> bool" where
  "vectors_fit n M \<longleftrightarrow> int n < max_size \<and> int (length (col M)) \<le> max_size"

text \<open>The columns of the rows \<open>beg..<en\<close> that lie outside \<open>xbeg..<xend\<close>.\<close>

definition ghost_spec :: "'a csr_buffers \<Rightarrow> nat \<Rightarrow> nat \<Rightarrow> nat \<Rightarrow> nat \<Rightarrow> nat set" where
  "ghost_spec M beg en xbeg xend =
     set (concat (map (\<lambda>i. filter (\<lambda>c. \<not> (xbeg \<le> c \<and> c < xend))
                              (map (\<lambda>j. col M ! j) [row M ! i..<row M ! (i + 1)]))
                [beg..<en]))"

text \<open>\<open>c\<close> is the position of the lower bound of \<open>v\<close> in the vector \<open>cols\<close>: the
  entries before it, and only those, are below \<open>v\<close>.\<close>

definition lb_pos :: "nat list \<Rightarrow> nat \<Rightarrow> nat \<Rightarrow> bool" where
  "lb_pos cols v c \<longleftrightarrow> c \<le> length cols \<and> (\<forall>i<length cols. i < c \<longleftrightarrow> cols ! i < v)"

text \<open>What the planner leaves in \<^verbatim>\<open>exc[d]\<close>: on the receiving side the positions of
  the ghost columns \<open>s\<close> in the send list \<open>cols\<close>, on the sending side the columns
  of the device's range of the send list, relative to the start of its partition.\<close>

definition recvd :: "nat list \<Rightarrow> nat list \<Rightarrow> 'a::zero exdata \<Rightarrow> 'a exdata" where
  "recvd cols s e =
     (if s = [] then e
      else e\<lparr>cols_to_recv := filter (\<lambda>i. cols ! i \<in> set s) [0..<length cols],
             vals_to_recv := replicate (length s) 0,
             exc_rx := replicate (length s) 0\<rparr>)"

definition sent :: "nat list \<Rightarrow> nat list \<Rightarrow> nat list \<Rightarrow> nat \<Rightarrow> 'a::zero exdata \<Rightarrow> 'a exdata" where
  "sent cols ci xpart d e =
     (if ci ! (d + 1) - ci ! d \<noteq> 0
      then e\<lparr>cols_to_send := map (\<lambda>i. cols ! i - xpart ! d) [ci ! d..<ci ! (d + 1)],
             vals_to_send := replicate (ci ! (d + 1) - ci ! d) 0\<rparr>
      else e)"

text \<open>The dense reference: \<open>y = alpha * M * x\<close>, added to the former \<open>y\<close> when
  \<open>app\<close> is set.\<close>

definition dense_spmv ::
  "'a::comm_semiring_0 csr_buffers \<Rightarrow> nat \<Rightarrow> 'a list \<Rightarrow> 'a list \<Rightarrow> 'a \<Rightarrow> bool \<Rightarrow> 'a list" where
  "dense_spmv M n x y alpha app =
     map (\<lambda>i. if app then y ! i + alpha * dot_row M x i else alpha * dot_row M x i) [0..<n]"

text \<open>Modelled from the spec: the distributed vector class is not part of this file;
  a vector is split at the boundaries of the partition of its size, part \<open>d\<close> on
  device \<open>d\<close> (the partition is used identically for the rows, the output vector,
  and for the columns, the input vector).\<close>

definition parts :: "nat list \<Rightarrow> 'a list \<Rightarrow> 'a list list" where
  "parts prt v = map (\<lambda>d. take (prt ! (d + 1) - prt ! d) (drop (prt ! d) v)) [0..<length prt - 1]"

text \<open>Construction followed by one multiplication, the result gathered from the
  devices.\<close>

definition construct_and_mul ::
  "device list \<Rightarrow> nat list \<Rightarrow> nat list \<Rightarrow> nat \<Rightarrow> nat \<Rightarrow> 'a::comm_semiring_0 csr_buffers
   \<Rightarrow> 'a list \<Rightarrow> 'a list \<Rightarrow> 'a \<Rightarrow> bool \<Rightarrow> error + 'a list" where
  "construct_and_mul q prt xpart n m M x y alpha app =
     rbind (SpMat_new q prt xpart n m M) (\<lambda>A.
     rbind (mul A (parts xpart x) (parts prt y) alpha app) (\<lambda>(A', y'). Inr (concat y')))"

text \<open>The entries of a row of a block as pairs of a column and a value; the local and the remote entries of a row of the input, renumbered as the renumbering pass stores them.\<close>

definition row_entries :: "'a csr_buffers \<Rightarrow> nat \<Rightarrow> (nat \<times> 'a) list" where
  "row_entries b i = map (\<lambda>j. (col b ! j, val b ! j)) [row b ! i..<row b ! (i + 1)]"

definition loc_entries :: "'a csr_buffers \<Rightarrow> nat \<Rightarrow> nat \<Rightarrow> nat \<Rightarrow> (nat \<times> 'a) list" where
  "loc_entries M xbeg xend i =
     map (\<lambda>(c, v). (c - xbeg, v)) (filter (\<lambda>(c, v). xbeg \<le> c \<and> c < xend) (row_entries M i))"

definition rem_entries ::
  "'a csr_buffers \<Rightarrow> nat \<Rightarrow> nat \<Rightarrow> (nat \<times> nat) list \<Rightarrow> nat \<Rightarrow> (nat \<times> 'a) list" where
  "rem_entries M xbeg xend r2l i =
     map (\<lambda>(c, v). (the (map_of r2l c), v))
       (filter (\<lambda>(c, v). \<not> (xbeg \<le> c \<and> c < xend)) (row_entries M i))"

text \<open>What block_ok needs from the shape of a block.\<close>

definition block_shape :: "nat \<Rightarrow> 'a csr_buffers \<Rightarrow> bool" where
  "block_shape n b \<longleftrightarrow>
     n < length (row b) \<and> length (col b) = length (val b)
     \<and> (\<forall>i<n. row b ! (i + 1) \<le> length (col b))"

text \<open>The product of a row, given by its entries, with a vector.\<close>

definition dot_entries :: "(nat \<times> 'a::comm_semiring_0) list \<Rightarrow> 'a list \<Rightarrow> 'a" where
  "dot_entries es x = (\<Sum>(c, v)\<leftarrow>es. v * x ! c)"

text \<open>What the constructor of \<^verbatim>\<open>SpMatCSR\<close> should build for the rows \<open>beg..<en\<close>, the columns
  \<open>xbeg..<xend\<close> and the ghost set \<open>rc\<close>: every row of the local block holds the local
  entries of the input row, every row of the remote block the remote ones.\<close>

definition store_spec ::
  "'a csr_buffers \<Rightarrow> nat \<Rightarrow> nat \<Rightarrow> nat \<Rightarrow> nat \<Rightarrow> nat list \<Rightarrow> 'a SpMatCSR \<Rightarrow> bool" where
  "store_spec M beg en xbeg xend rc S \<longleftrightarrow>
     csr_n S = en - beg \<and> has_rem S = (rc \<noteq> [])
     \<and> (has_loc S \<longrightarrow> block_shape (en - beg) (loc S))
     \<and> (has_rem S \<longrightarrow> block_shape (en - beg) (rem S))
     \<and> (\<forall>i<en - beg. (if has_loc S then row_entries (loc S) i else [])
                       = loc_entries M xbeg xend (beg + i))
     \<and> (\<forall>i<en - beg. (if has_rem S then row_entries (rem S) i else [])
                       = rem_entries M xbeg xend (r2l_of rc) (beg + i))"

text \<open>No device that owns rows starts at row \<open>0\<close> with a column range that starts above
  \<open>0\<close>. On such a device the fast path of the constructor, taken on
  \<^verbatim>\<open>beg == 0 && remote_cols.empty()\<close>, would keep the global columns although \<^verbatim>\<open>xbeg\<close>
  is not \<open>0\<close>.\<close>

definition fast_path_safe :: "nat list \<Rightarrow> nat list \<Rightarrow> nat \<Rightarrow> bool" where
  "fast_path_safe prt xpart D \<longleftrightarrow> (\<forall>d<D. prt ! d = 0 \<and> prt ! d < prt ! (d + 1) \<longrightarrow> xpart ! d = 0)"

text \<open>What the constructor of \<^verbatim>\<open>SpMat\<close> leaves in \<^verbatim>\<open>mtx[d]\<close>: a store as \<open>store_spec\<close>
  describes it when the device owns rows, and no store otherwise.\<close>

definition device_store ::
  "'a csr_buffers \<Rightarrow> nat list \<Rightarrow> nat list \<Rightarrow> nat list list \<Rightarrow> nat \<Rightarrow> 'a SpMatCSR option \<Rightarrow> bool" where
  "device_store M prt xpart rc d S' \<longleftrightarrow>
     (if prt ! d < prt ! (d + 1)
      then \<exists>S. S' = Some S
             \<and> store_spec M (prt ! d) (prt ! (d + 1)) (xpart ! d) (xpart ! (d + 1)) (rc ! d) S
      else S' = None)"

subsection \<open>Concrete inputs\<close>

definition dev0 :: device where
  "dev0 = \<lparr>num_workgroups = 2, wgsize = 2\<rparr>"

definition csr_example :: "int SpMatCSR" where
  "csr_example = \<lparr>csr_n = 2, has_loc = True, has_rem = True,
     loc = \<lparr>row = [0, 1, 3], col = [0, 0, 1], val = [2, 3, 4]\<rparr>,
     rem = \<lparr>row = [0, 0, 1], col = [0], val = [5]\<rparr>\<rparr>"

text \<open>A matrix with four rows and columns on two devices, two rows and columns
  each: every row refers to a column of the other device.\<close>

definition ex_M :: "int csr_buffers" where
  "ex_M = \<lparr>row = [0, 2, 3, 5, 7], col = [0, 3, 1, 0, 2, 3, 1], val = [1, 2, 3, 4, 5, 6, 7]\<rparr>"

definition ex_A0 :: "int SpMat" where
  "ex_A0 = SpMat_init [dev0, dev0] [0, 2, 4] 4 4 7"

text \<open>One row and 48 columns on two devices, the second twice as fast as the first:
  the first device gets no row and the columns \<open>0..<16\<close>, the second the only row
  and the columns \<open>16..<48\<close>. The only nonzero is in column \<open>20\<close>, a column of
  the second device. Entry \<open>i\<close> of the input vector is \<open>i\<close>.\<close>

definition bug_M :: "int csr_buffers" where
  "bug_M = \<lparr>row = [0, 1], col = [20], val = [5]\<rparr>"

definition bug_x :: "int list" where
  "bug_x = map int [0..<48]"

text \<open>Malformed inputs: a column index beyond the single column of the matrix, and
  row offsets that decrease.\<close>

definition bad_col_M :: "int csr_buffers" where
  "bad_col_M = \<lparr>row = [0, 1], col = [5], val = [7]\<rparr>"

definition bad_row_M :: "int csr_buffers" where
  "bad_row_M = \<lparr>row = [0, 2, 1], col = [0, 0], val = [1, 1]\<rparr>"

text \<open>A device whose ghost buffer still holds an old value.\<close>

definition stale_state :: "int device_state" where
  "stale_state = \<lparr>ghost_buffer = [0], out_buffer = [1, 1], completed = [],
                  transfers = [], kernels = []\<rparr>"

section \<open>Properties\<close>

subsection \<open>Loops and checked accesses\<close>

lemma rbind_Inr [simp]: "rbind (Inr v) f = f v"
  by (simp add: rbind_def)

lemma rbind_Inl [simp]: "rbind (Inl e) f = Inl e"
  by (simp add: rbind_def)

lemma rd_in [simp]: "i < length xs \<Longrightarrow> rd xs i = Inr (xs ! i)"
  by (simp add: rd_def)

lemma wr_in [simp]: "i < length xs \<Longrightarrow> wr xs i v = Inr (xs[i := v])"
  by (simp add: wr_def)

lemma foldM_append: "foldM f (xs @ ys) s = rbind (foldM f xs s) (foldM f ys)"
  by (induction xs arbitrary: s) (auto simp: rbind_def split: sum.splits)

lemma foldM_concat: "foldM (\<lambda>xs. foldM f xs) xss s = foldM f (concat xss) s"
  by (induction xss arbitrary: s) (auto simp: foldM_append rbind_def split: sum.splits)

lemma foldM_map: "foldM (\<lambda>i. f (h i)) is s = foldM f (map h is) s"
  by (induction "is" arbitrary: s) (auto simp: rbind_def split: sum.splits)

text \<open>A loop whose body cannot fail on the states of an invariant is a pure fold.\<close>

lemma foldM_pure:
  assumes "\<And>i s. i \<in> set is \<Longrightarrow> I s \<Longrightarrow> f i s = Inr (g i s) \<and> I (g i s)" and "I s"
  shows "foldM f is s = Inr (fold g is s) \<and> I (fold g is s)"
  using assms by (induction "is" arbitrary: s) auto

lemma upt_split: "a \<le> b \<Longrightarrow> b \<le> c \<Longrightarrow> [a..<b] @ [b..<c] = [a..<c]"
  by (metis le_Suc_ex upt_add_eq_append)

subsection \<open>The kernels \<^verbatim>\<open>spmv_set\<close> and \<^verbatim>\<open>spmv_add\<close>\<close>

lemma fold_sum_acc:
  fixes f :: "nat \<Rightarrow> 'a::comm_semiring_0"
  shows "fold (\<lambda>j s. s + f j) js a = a + (\<Sum>j\<leftarrow>js. f j)"
  by (induction js arbitrary: a) (auto simp: add.assoc)

lemma row_sum_ok:
  assumes "block_ok n b x" "i < n"
  shows "row_sum b x i = Inr (dot_row b x i)"
proof -
  let ?js = "[row b ! i..<row b ! (i + 1)]"
  have len: "i < length (row b)" "i + 1 < length (row b)"
    using assms by (auto simp: block_ok_def)
  have inb: "\<And>j. j \<in> set ?js \<Longrightarrow> j < length (val b) \<and> j < length (col b) \<and> col b ! j < length x"
    using assms unfolding block_ok_def by blast
  have "foldM (\<lambda>j sum. rbind (rd (val b) j) (\<lambda>v. rbind (rd (col b) j) (\<lambda>c.
            rbind (rd x c) (\<lambda>xc. Inr (sum + v * xc))))) ?js 0
        = Inr (fold (\<lambda>j s. s + val b ! j * x ! (col b ! j)) ?js 0) \<and> True"
    by (rule foldM_pure[where I = "\<lambda>_. True"]) (use inb in auto)
  then show ?thesis
    using len by (simp add: row_sum_def dot_row_def fold_sum_acc)
qed

text \<open>The chunks of the work items are consecutive and cover every row once.\<close>

lemma upt_min_step: "[0..<min n a] @ [a..<min n (a + c)] = [0..<min (n::nat) (a + c)]"
proof (cases "a \<le> n")
  case True
  then have "[0..<a] @ [a..<min n (a + c)] = [0..<min n (a + c)]"
    by (intro upt_split) auto
  with True show ?thesis by (simp add: min_absorb2)
next
  case False
  then show ?thesis by simp
qed

lemma chunks_upto:
  "concat (map (chunk n g) [0..<k]) = [0..<min n (k * ((n + g - 1) div g))]"
proof (induction k)
  case 0
  show ?case by simp
next
  case (Suc k)
  have "concat (map (chunk n g) [0..<Suc k])
        = [0..<min n (k * ((n + g - 1) div g))]
          @ [k * ((n + g - 1) div g)..<min n (k * ((n + g - 1) div g) + (n + g - 1) div g)]"
    by (simp add: Suc.IH) (simp add: chunk_def Let_def)
  also have "\<dots> = [0..<min n (k * ((n + g - 1) div g) + (n + g - 1) div g)]"
    by (rule upt_min_step)
  finally show ?case by (simp add: add.commute)
qed

lemma chunks_cover:
  assumes "0 < g"
  shows "concat (map (chunk n g) [0..<g]) = [0..<n]"
proof -
  have "n \<le> g * ((n + g - 1) div g)"
  proof -
    have "n + g - 1 < g * ((n + g - 1) div g) + g"
      using assms by (metis add.commute dividend_less_times_div)
    then show ?thesis using assms by linarith
  qed
  then show ?thesis by (simp add: chunks_upto min_def)
qed

lemma fold_update_upt:
  "n \<le> length y \<Longrightarrow>
   fold (\<lambda>i y. y[i := h i (y ! i)]) [0..<n] y
   = map (\<lambda>i. if i < n then h i (y ! i) else y ! i) [0..<length y]"
proof (induction n)
  case 0
  show ?case by (simp add: map_nth)
next
  case (Suc n)
  then have IH: "fold (\<lambda>i y. y[i := h i (y ! i)]) [0..<n] y
                 = map (\<lambda>i. if i < n then h i (y ! i) else y ! i) [0..<length y]"
    and n: "n < length y" by simp_all
  show ?case
    by (rule nth_equalityI) (use n in \<open>auto simp: IH nth_list_update less_Suc_eq\<close>)
qed

lemma spmv_set_rows:
  assumes "0 < g"
  shows "spmv_set g n b x y alpha = foldM (spmv_set_row b x alpha) [0..<n] y"
  unfolding spmv_set_def
  by (simp add: foldM_map[where f = "foldM (spmv_set_row b x alpha)" and h = "chunk n g"]
        foldM_concat chunks_cover[OF assms])

lemma spmv_add_rows:
  assumes "0 < g"
  shows "spmv_add g n b x y alpha = foldM (spmv_add_row b x alpha) [0..<n] y"
  unfolding spmv_add_def
  by (simp add: foldM_map[where f = "foldM (spmv_add_row b x alpha)" and h = "chunk n g"]
        foldM_concat chunks_cover[OF assms])

lemma spmv_set_result:
  assumes "0 < g" "block_ok n b x" "n \<le> length y"
  shows "spmv_set g n b x y alpha
         = Inr (map (\<lambda>i. if i < n then alpha * dot_row b x i else y ! i) [0..<length y])"
proof -
  have "foldM (spmv_set_row b x alpha) [0..<n] y
        = Inr (fold (\<lambda>i y. y[i := (\<lambda>i _. alpha * dot_row b x i) i (y ! i)]) [0..<n] y)
          \<and> length (fold (\<lambda>i y. y[i := (\<lambda>i _. alpha * dot_row b x i) i (y ! i)]) [0..<n] y) = length y"
    by (rule foldM_pure[where I = "\<lambda>s. length s = length y"])
       (use assms in \<open>auto simp: spmv_set_row_def row_sum_ok\<close>)
  then show ?thesis
    using assms fold_update_upt[of n y "\<lambda>i _. alpha * dot_row b x i"]
    by (simp add: spmv_set_rows)
qed

lemma spmv_add_result:
  assumes "0 < g" "block_ok n b x" "n \<le> length y"
  shows "spmv_add g n b x y alpha
         = Inr (map (\<lambda>i. if i < n then y ! i + alpha * dot_row b x i else y ! i) [0..<length y])"
proof -
  have "foldM (spmv_add_row b x alpha) [0..<n] y
        = Inr (fold (\<lambda>i y. y[i := (\<lambda>i yi. yi + alpha * dot_row b x i) i (y ! i)]) [0..<n] y)
          \<and> length (fold (\<lambda>i y. y[i := (\<lambda>i yi. yi + alpha * dot_row b x i) i (y ! i)]) [0..<n] y) = length y"
    by (rule foldM_pure[where I = "\<lambda>s. length s = length y"])
       (use assms in \<open>auto simp: spmv_add_row_def row_sum_ok\<close>)
  then show ?thesis
    using assms fold_update_upt[of n y "\<lambda>i yi. yi + alpha * dot_row b x i"]
    by (simp add: spmv_add_rows)
qed

text \<open>The results of the two methods of the store, from the results of the kernels.\<close>

lemma mul_local_result:
  assumes "0 < num_workgroups dev * wgsize dev"
    and "has_loc A \<Longrightarrow> block_ok (csr_n A) (loc A) x \<and> csr_n A \<le> length y"
  shows "mul_local dev A x y alpha app =
         Inr (if has_loc A then
                map (\<lambda>i. if i < csr_n A
                         then (if app then y ! i + alpha * dot_row (loc A) x i
                               else alpha * dot_row (loc A) x i)
                         else y ! i) [0..<length y]
              else if app then y else replicate (length y) 0)"
proof (cases "has_loc A")
  case True
  with assms show ?thesis
    by (cases app)
       (simp_all add: mul_local_def mul_local_launch_def run_spmv_def
          spmv_set_result spmv_add_result)
next
  case False
  then show ?thesis
    by (simp add: mul_local_def mul_local_launch_def map_replicate_const)
qed

lemma mul_remote_result:
  assumes "0 < num_workgroups dev * wgsize dev"
    and "has_rem A \<Longrightarrow> block_ok (csr_n A) (rem A) x \<and> csr_n A \<le> length y"
  shows "mul_remote dev A x y alpha event =
           Inr (if has_rem A
                then map (\<lambda>i. if i < csr_n A then y ! i + alpha * dot_row (rem A) x i
                              else y ! i) [0..<length y]
                else y)"
proof (cases "has_rem A")
  case True
  with assms show ?thesis
    by (simp add: mul_remote_def mul_remote_launch_def run_spmv_def spmv_add_result)
next
  case False
  then show ?thesis by (simp add: mul_remote_def mul_remote_launch_def)
qed

subsection \<open>C6: the three cases of \<^verbatim>\<open>mul_local\<close>\<close>

text \<open>
  C6. \<^verbatim>\<open>SpMatCSR::mul_local(x, y, alpha, append)\<close>, for every \<open>alpha\<close> and \<open>x\<close>: when
  the store has a local block (\<open>has_loc\<close>, the flag the constructor sets exactly when
  the local block holds a nonzero) every row \<open>i\<close> of the block gets
  \<open>y[i] = alpha * (\<Sum>j. val[j] * x[col[j]])\<close>, added to the former \<open>y[i]\<close> when \<open>append\<close>
  is set; without a local block \<open>y\<close> becomes all zeros when \<open>append\<close> is not set and
  stays as it is when \<open>append\<close> is set. The kernel runs on a positive global size
  and on a block whose rows lie inside the buffers.
\<close>

theorem mul_local_spec:
  assumes "0 < num_workgroups dev * wgsize dev"
    and "has_loc A \<Longrightarrow> block_ok (csr_n A) (loc A) x \<and> csr_n A \<le> length y"
  shows "mul_local dev A x y alpha app =
         Inr (if has_loc A then
                map (\<lambda>i. if i < csr_n A
                         then (if app then y ! i + alpha * dot_row (loc A) x i
                               else alpha * dot_row (loc A) x i)
                         else y ! i) [0..<length y]
              else if app then y else replicate (length y) 0)"
proof (cases "has_loc A")
  case True
  with assms show ?thesis
    by (cases app)
       (simp_all add: mul_local_def mul_local_launch_def run_spmv_def
          spmv_set_result spmv_add_result)
next
  case False
  then show ?thesis
    by (simp add: mul_local_def mul_local_launch_def map_replicate_const)
qed

theorem mul_local_spec_witness:
  "0 < num_workgroups dev0 * wgsize dev0
   \<and> block_ok (csr_n csr_example) (loc csr_example) [10, 20::int]
   \<and> csr_n csr_example \<le> length [1, 1::int]
   \<and> mul_local dev0 csr_example [10, 20] [1, 1] 2 True = Inr [41, 221]"
proof -
  have g: "0 < num_workgroups dev0 * wgsize dev0"
    by (simp add: dev0_def)
  have ok: "block_ok (csr_n csr_example) (loc csr_example) [10, 20::int]
            \<and> csr_n csr_example \<le> length [1, 1::int]"
    by code_simp
  have ev: "(if has_loc csr_example then
               map (\<lambda>i. if i < csr_n csr_example
                        then (if True
                              then [1, 1] ! i + 2 * dot_row (loc csr_example) [10, 20] i
                              else 2 * dot_row (loc csr_example) [10, 20] i)
                        else [1, 1] ! i) [0..<length [1, 1::int]]
             else if True then [1, 1] else replicate (length [1, 1::int]) 0) = [41, 221]"
    by code_simp
  show ?thesis
    using g ok mul_local_spec[OF g, of csr_example "[10, 20]" "[1, 1]" 2 True, OF ok]
    unfolding ev by simp
qed

subsection \<open>The remote kernel on the queues of a device\<close>

lemma upload_then_kernel:
  fixes s0 :: "'a::comm_semiring_0 device_state"
  assumes idle: "transfers s0 = []" "kernels s0 = []" and y: "out_buffer s0 = y"
    and fresh: "e \<notin> set (completed s0)"
    and run: "rtranclp step (enqueue_mul_remote dev A alpha [e] (enqueueWriteBuffer x e s0)) s"
  shows "(e \<in> set (completed s) \<longrightarrow> ghost_buffer s = x)
         \<and> (kernels s = [] \<longrightarrow> Inr (out_buffer s) = mul_remote dev A x y alpha [e])"
proof -
  let ?s1 = "enqueue_mul_remote dev A alpha [e] (enqueueWriteBuffer x e s0)"
  let ?K = "NDRangeKernel \<lparr>l_kernel = Spmv_add, l_g_size = num_workgroups dev * wgsize dev,
                            l_wait = [e]\<rparr> (csr_n A) (rem A) alpha"
  let ?ks = "if has_rem A then [?K] else []"
  define waiting where "waiting = (\<lambda>s :: 'a device_state.
     transfers s = [WriteBuffer x e] \<and> e \<notin> set (completed s) \<and> kernels s = ?ks
     \<and> out_buffer s = y)"
  define uploaded where "uploaded = (\<lambda>s :: 'a device_state.
     transfers s = [] \<and> e \<in> set (completed s) \<and> ghost_buffer s = x \<and> kernels s = ?ks
     \<and> out_buffer s = y)"
  define finished where "finished = (\<lambda>s :: 'a device_state.
     transfers s = [] \<and> e \<in> set (completed s) \<and> ghost_buffer s = x \<and> kernels s = []
     \<and> Inr (out_buffer s) = mul_remote dev A x y alpha [e])"
  have init: "waiting ?s1"
    using idle y fresh
    by (simp add: waiting_def enqueue_mul_remote_def enqueueWriteBuffer_def mul_remote_launch_def)
  have inv: "waiting s \<or> uploaded s \<or> finished s"
    using run
  proof (induction rule: rtranclp_induct)
    case base
    then show ?case using init by blast
  next
    case (step s s')
    from step.hyps(2) show ?case
    proof (cases rule: step.cases)
      case (transfer vs e' cs)
      then have w: "waiting s"
        using step.IH by (auto simp: uploaded_def finished_def)
      then show ?thesis using transfer by (simp add: waiting_def uploaded_def)
    next
      case (kernel l n b a cs y')
      have nw: "\<not> waiting s"
      proof
        assume "waiting s"
        then have "e \<notin> set (completed s)" "kernels s = ?ks" by (simp_all add: waiting_def)
        with kernel(2,3) show False by (auto split: if_splits)
      qed
      have nf: "\<not> finished s" using kernel(2) by (simp add: finished_def)
      from step.IH nw nf have u: "uploaded s" by blast
      then have k: "kernels s = ?ks" and g: "ghost_buffer s = x" and o: "out_buffer s = y"
        and t: "transfers s = []" and c: "e \<in> set (completed s)"
        by (simp_all add: uploaded_def)
      from k kernel(2) have hr: "has_rem A" and l: "l = \<lparr>l_kernel = Spmv_add,
          l_g_size = num_workgroups dev * wgsize dev, l_wait = [e]\<rparr>"
        and args: "n = csr_n A" "b = rem A" "a = alpha" "cs = []"
        by (auto split: if_splits)
      have "mul_remote dev A x y alpha [e] = Inr y'"
        using kernel(4) hr unfolding l args g o
        by (simp add: mul_remote_def mul_remote_launch_def)
      then show ?thesis
        using kernel(1) t c g args(4) by (simp add: finished_def)
    qed
  qed
  have a: "e \<in> set (completed s) \<longrightarrow> ghost_buffer s = x"
    using inv by (auto simp: waiting_def uploaded_def finished_def)
  have b: "kernels s = [] \<longrightarrow> Inr (out_buffer s) = mul_remote dev A x y alpha [e]"
  proof
    assume e: "kernels s = []"
    from inv show "Inr (out_buffer s) = mul_remote dev A x y alpha [e]"
    proof (elim disjE)
      assume "waiting s"
      with e have "\<not> has_rem A" "out_buffer s = y" by (auto simp: waiting_def split: if_splits)
      then show ?thesis by (simp add: mul_remote_def mul_remote_launch_def)
    next
      assume "uploaded s"
      with e have "\<not> has_rem A" "out_buffer s = y" by (auto simp: uploaded_def split: if_splits)
      then show ?thesis by (simp add: mul_remote_def mul_remote_launch_def)
    next
      assume "finished s"
      then show ?thesis by (simp add: finished_def)
    qed
  qed
  from a b show ?thesis by blast
qed

lemma upload_then_kernel_completes:
  fixes s0 :: "'a::comm_semiring_0 device_state"
  assumes idle: "transfers s0 = []" "kernels s0 = []" and y: "out_buffer s0 = y"
    and ok: "mul_remote dev A x y alpha [e] = Inr y'"
  shows "\<exists>s. rtranclp step (enqueue_mul_remote dev A alpha [e] (enqueueWriteBuffer x e s0)) s
             \<and> transfers s = [] \<and> kernels s = []"
proof -
  let ?s1 = "enqueue_mul_remote dev A alpha [e] (enqueueWriteBuffer x e s0)"
  let ?s2 = "?s1\<lparr>ghost_buffer := x, completed := e # completed ?s1, transfers := []\<rparr>"
  have t: "transfers ?s1 = WriteBuffer x e # []"
    using idle
    by (simp add: enqueue_mul_remote_def enqueueWriteBuffer_def mul_remote_launch_def)
  have s12: "step ?s1 ?s2" by (rule step.transfer[OF t])
  show ?thesis
  proof (cases "has_rem A")
    case False
    then have "kernels ?s2 = []" "transfers ?s2 = []"
      using idle
      by (simp_all add: enqueue_mul_remote_def enqueueWriteBuffer_def mul_remote_launch_def)
    moreover have "rtranclp step ?s1 ?s2" using s12 by (rule r_into_rtranclp)
    ultimately show ?thesis by (intro exI[of _ ?s2] conjI)
  next
    case True
    let ?l = "\<lparr>l_kernel = Spmv_add, l_g_size = num_workgroups dev * wgsize dev,
               l_wait = [e]\<rparr>"
    let ?s3 = "?s2\<lparr>out_buffer := y', kernels := []\<rparr>"
    have k: "kernels ?s2 = NDRangeKernel ?l (csr_n A) (rem A) alpha # []"
      using idle True
      by (simp add: enqueue_mul_remote_def enqueueWriteBuffer_def mul_remote_launch_def)
    have w: "set (l_wait ?l) \<subseteq> set (completed ?s2)" by simp
    have o: "out_buffer ?s2 = y" "ghost_buffer ?s2 = x"
      using y True
      by (simp_all add: enqueue_mul_remote_def enqueueWriteBuffer_def mul_remote_launch_def)
    have r: "run_spmv ?l (csr_n A) (rem A) (ghost_buffer ?s2) (out_buffer ?s2) alpha = Inr y'"
      unfolding o using ok True by (simp add: mul_remote_def mul_remote_launch_def)
    have s23: "step ?s2 ?s3" by (rule step.kernel[OF k w r])
    have "rtranclp step ?s1 ?s2" using s12 by (rule r_into_rtranclp)
    then have "rtranclp step ?s1 ?s3" using s23 by (rule rtranclp.rtrancl_into_rtrancl)
    moreover have "transfers ?s3 = []" "kernels ?s3 = []" by simp_all
    ultimately show ?thesis by (intro exI[of _ ?s3] conjI)
  qed
qed

lemma completed_grows:
  assumes "rtranclp step s s'"
  shows "set (completed s) \<subseteq> set (completed s')"
  using assms
proof (induction rule: rtranclp_induct)
  case base
  show ?case by simp
next
  case (step s' s'')
  from step.hyps(2) have "set (completed s') \<subseteq> set (completed s'')"
    by (cases rule: step.cases) auto
  with step.IH show ?case by blast
qed

lemma kernel_after_events:
  fixes s0 :: "'a::comm_semiring_0 device_state"
  assumes "kernels s0 = []" "has_rem A"
    and "rtranclp step (enqueue_mul_remote dev A alpha event s0) s" "kernels s = []"
  shows "set event \<subseteq> set (completed s)"
proof -
  let ?K = "NDRangeKernel \<lparr>l_kernel = Spmv_add, l_g_size = num_workgroups dev * wgsize dev,
                            l_wait = event\<rparr> (csr_n A) (rem A) alpha"
  have "kernels s = [?K] \<or> (kernels s = [] \<and> set event \<subseteq> set (completed s))"
    using assms(3)
  proof (induction rule: rtranclp_induct)
    case base
    show ?case using assms(1,2) by (simp add: enqueue_mul_remote_def mul_remote_launch_def)
  next
    case (step s s')
    from step.hyps(2) show ?case
    proof (cases rule: step.cases)
      case (transfer vs e cs)
      with step.IH show ?thesis by auto
    next
      case (kernel l n b a cs y')
      with step.IH show ?thesis by auto
    qed
  qed
  with assms(4) show ?thesis by simp
qed

subsection \<open>C7: \<^verbatim>\<open>mul_remote\<close> only accumulates, after its events\<close>

text \<open>
  C7. \<^verbatim>\<open>SpMatCSR::mul_remote\<close> never overwrites \<open>y\<close>: without a remote block
  (\<open>has_rem\<close> not set) it returns at once, enqueues nothing and leaves \<open>y\<close> as it
  is; with a remote block it enqueues the adding kernel \<^verbatim>\<open>spmv_add\<close>, which puts
  \<open>y[i] + alpha * (\<Sum>j. val[j] * x[col[j]])\<close> into every row, and the launch carries
  the supplied event list as its wait list. On the queues of the device the kernel
  has run only when every event of that list is complete. With the upload of the
  ghost values as the event, as \<^verbatim>\<open>SpMat::mul\<close> enqueues the two, in every execution
  the ghost buffer holds the uploaded values once the event is complete, whatever
  it held before, and the kernel, once it has run, has added the sums over those
  values; and the two operations can always run to the end.
\<close>

theorem mul_remote_accumulates:
  assumes "0 < num_workgroups dev * wgsize dev"
    and "has_rem A \<Longrightarrow> block_ok (csr_n A) (rem A) x \<and> csr_n A \<le> length y"
  shows "mul_remote dev A x y alpha event =
           Inr (if has_rem A
                then map (\<lambda>i. if i < csr_n A then y ! i + alpha * dot_row (rem A) x i
                              else y ! i) [0..<length y]
                else y)
         \<and> mul_remote_launch dev A event =
           (if has_rem A
            then Some \<lparr>l_kernel = Spmv_add, l_g_size = num_workgroups dev * wgsize dev,
                       l_wait = event\<rparr>
            else None)
         \<and> (\<forall>s0 s. kernels s0 = [] \<and> has_rem A
               \<and> rtranclp step (enqueue_mul_remote dev A alpha event s0) s \<and> kernels s = []
               \<longrightarrow> set event \<subseteq> set (completed s))
         \<and> (\<forall>s0 e s. transfers s0 = [] \<and> kernels s0 = [] \<and> out_buffer s0 = y
               \<and> e \<notin> set (completed s0)
               \<and> rtranclp step
                    (enqueue_mul_remote dev A alpha [e] (enqueueWriteBuffer x e s0)) s
               \<longrightarrow> (e \<in> set (completed s) \<longrightarrow> ghost_buffer s = x)
                 \<and> (kernels s = [] \<longrightarrow>
                      out_buffer s =
                        (if has_rem A
                         then map (\<lambda>i. if i < csr_n A then y ! i + alpha * dot_row (rem A) x i
                                       else y ! i) [0..<length y]
                         else y)))
         \<and> (\<forall>s0 e. transfers s0 = [] \<and> kernels s0 = [] \<and> out_buffer s0 = y
               \<longrightarrow> (\<exists>s. rtranclp step
                          (enqueue_mul_remote dev A alpha [e] (enqueueWriteBuffer x e s0)) s
                        \<and> transfers s = [] \<and> kernels s = []))"
proof -
  let ?r = "if has_rem A
            then map (\<lambda>i. if i < csr_n A then y ! i + alpha * dot_row (rem A) x i
                          else y ! i) [0..<length y]
            else y"
  have res: "mul_remote dev A x y alpha ev = Inr ?r" for ev
    using assms by (rule mul_remote_result)
  have launch: "mul_remote_launch dev A event =
           (if has_rem A
            then Some \<lparr>l_kernel = Spmv_add, l_g_size = num_workgroups dev * wgsize dev,
                       l_wait = event\<rparr>
            else None)"
    by (simp add: mul_remote_launch_def)
  have order: "set event \<subseteq> set (completed s)"
    if "kernels s0 = [] \<and> has_rem A
        \<and> rtranclp step (enqueue_mul_remote dev A alpha event s0) s \<and> kernels s = []"
    for s0 s :: "'a device_state"
    using kernel_after_events[of s0 A dev alpha event s] that by blast
  have flow: "(e \<in> set (completed s) \<longrightarrow> ghost_buffer s = x)
              \<and> (kernels s = [] \<longrightarrow> out_buffer s = ?r)"
    if h: "transfers s0 = [] \<and> kernels s0 = [] \<and> out_buffer s0 = y
        \<and> e \<notin> set (completed s0)
        \<and> rtranclp step (enqueue_mul_remote dev A alpha [e] (enqueueWriteBuffer x e s0)) s"
    for s0 s :: "'a device_state" and e
  proof -
    from h have a: "transfers s0 = []" "kernels s0 = []" "out_buffer s0 = y"
      "e \<notin> set (completed s0)"
      "rtranclp step (enqueue_mul_remote dev A alpha [e] (enqueueWriteBuffer x e s0)) s"
      by blast+
    from upload_then_kernel[OF a] show ?thesis unfolding res by simp
  qed
  have fin: "\<exists>s. rtranclp step (enqueue_mul_remote dev A alpha [e] (enqueueWriteBuffer x e s0)) s
                  \<and> transfers s = [] \<and> kernels s = []"
    if h: "transfers s0 = [] \<and> kernels s0 = [] \<and> out_buffer s0 = y"
    for s0 :: "'a device_state" and e
  proof -
    from h have a: "transfers s0 = []" "kernels s0 = []" "out_buffer s0 = y" by blast+
    show ?thesis by (rule upload_then_kernel_completes[OF a res])
  qed
  show ?thesis
  proof (intro conjI allI impI)
    show "mul_remote dev A x y alpha event = Inr ?r" by (rule res)
    show "mul_remote_launch dev A event =
           (if has_rem A
            then Some \<lparr>l_kernel = Spmv_add, l_g_size = num_workgroups dev * wgsize dev,
                       l_wait = event\<rparr>
            else None)" by (rule launch)
  next
    fix s0 s :: "'a device_state"
    assume "kernels s0 = [] \<and> has_rem A
        \<and> rtranclp step (enqueue_mul_remote dev A alpha event s0) s \<and> kernels s = []"
    then show "set event \<subseteq> set (completed s)" by (rule order)
  next
    fix s0 s :: "'a device_state" and e
    assume h: "transfers s0 = [] \<and> kernels s0 = [] \<and> out_buffer s0 = y
        \<and> e \<notin> set (completed s0)
        \<and> rtranclp step (enqueue_mul_remote dev A alpha [e] (enqueueWriteBuffer x e s0)) s"
    show "e \<in> set (completed s) \<Longrightarrow> ghost_buffer s = x" using flow[OF h] by blast
    show "kernels s = [] \<Longrightarrow> out_buffer s = ?r" using flow[OF h] by blast
  next
    fix s0 :: "'a device_state" and e
    assume "transfers s0 = [] \<and> kernels s0 = [] \<and> out_buffer s0 = y"
    then show "\<exists>s. rtranclp step
                 (enqueue_mul_remote dev A alpha [e] (enqueueWriteBuffer x e s0)) s
               \<and> transfers s = [] \<and> kernels s = []" by (rule fin)
  qed
qed

theorem mul_remote_accumulates_witness:
  "0 < num_workgroups dev0 * wgsize dev0
   \<and> block_ok (csr_n csr_example) (rem csr_example) [100::int]
   \<and> csr_n csr_example \<le> length [1, 1::int]
   \<and> mul_remote dev0 csr_example [100] [1, 1] 2 [Uploaded 0] = Inr [1, 1001]
   \<and> mul_remote_launch dev0 csr_example [Uploaded 0]
       = Some \<lparr>l_kernel = Spmv_add, l_g_size = 4, l_wait = [Uploaded 0]\<rparr>
   \<and> (\<exists>s. rtranclp step
              (enqueue_mul_remote dev0 csr_example 2 [Uploaded 0]
                 (enqueueWriteBuffer [100] (Uploaded 0) stale_state)) s
          \<and> transfers s = [] \<and> kernels s = []
          \<and> Uploaded 0 \<in> set (completed s) \<and> out_buffer s = [1, 1001])"
proof -
  have g: "0 < num_workgroups dev0 * wgsize dev0"
    by (simp add: dev0_def)
  have ok: "block_ok (csr_n csr_example) (rem csr_example) [100::int]
            \<and> csr_n csr_example \<le> length [1, 1::int]"
    by code_simp
  have ev: "(if has_rem csr_example
             then map (\<lambda>i. if i < csr_n csr_example
                           then [1, 1] ! i + 2 * dot_row (rem csr_example) [100] i
                           else [1, 1] ! i) [0..<length [1, 1::int]]
             else [1, 1]) = [1, 1001]"
    by code_simp
  have hr: "has_rem csr_example" and gs: "num_workgroups dev0 * wgsize dev0 = 4"
    by (simp_all add: csr_example_def dev0_def)
  have st: "transfers stale_state = []" "kernels stale_state = []"
    "out_buffer stale_state = [1, 1]" "Uploaded 0 \<notin> set (completed stale_state)"
    by (simp_all add: stale_state_def)
  note inst = mul_remote_accumulates[OF g, of csr_example "[100]" "[1, 1]" 2 "[Uploaded 0]",
      OF ok, unfolded ev]
  let ?s1 = "enqueue_mul_remote dev0 csr_example 2 [Uploaded 0]
               (enqueueWriteBuffer [100] (Uploaded 0) stale_state)"
  note p3 = inst[THEN conjunct2, THEN conjunct2, THEN conjunct1, rule_format]
  note p4 = inst[THEN conjunct2, THEN conjunct2, THEN conjunct2, THEN conjunct1, rule_format]
  note p5 = inst[THEN conjunct2, THEN conjunct2, THEN conjunct2, THEN conjunct2, rule_format]
  let ?s0 = "enqueueWriteBuffer [100] (Uploaded 0) stale_state"
  let ?s1 = "enqueue_mul_remote dev0 csr_example 2 [Uploaded 0] ?s0"
  have "transfers stale_state = [] \<and> kernels stale_state = []
        \<and> out_buffer stale_state = [1, 1]" using st by simp
  from p5[OF this, of "Uploaded 0"] obtain s where
    s: "rtranclp step ?s1 s" "transfers s = []" "kernels s = []"
    by blast
  have k0: "kernels ?s0 = []" using st(2) by (simp add: enqueueWriteBuffer_def)
  have "kernels ?s0 = [] \<and> has_rem csr_example \<and> rtranclp step ?s1 s \<and> kernels s = []"
    using k0 hr s(1,3) by simp
  from p3[OF this] have c: "Uploaded 0 \<in> set (completed s)" by simp
  have "transfers stale_state = [] \<and> kernels stale_state = []
        \<and> out_buffer stale_state = [1, 1] \<and> Uploaded 0 \<notin> set (completed stale_state)
        \<and> rtranclp step ?s1 s" using st s(1) by simp
  from p4[OF this] s(3) have o: "out_buffer s = [1, 1001]" by simp
  have "\<exists>s. rtranclp step ?s1 s \<and> transfers s = [] \<and> kernels s = []
          \<and> Uploaded 0 \<in> set (completed s) \<and> out_buffer s = [1, 1001]"
    using s c o by (intro exI[of _ s]) simp
  with g ok inst show ?thesis by (simp add: hr gs)
qed

text \<open>Without the event in the wait list the kernel may start before the upload and
  read what the buffer held before.\<close>

lemma kernel_without_events_reads_stale:
  "\<exists>s. rtranclp step
          (enqueue_mul_remote dev0 csr_example 2 []
             (enqueueWriteBuffer [100] (Uploaded 0) stale_state)) s
      \<and> kernels s = [] \<and> out_buffer s = [1, 1]"
proof -
  let ?l = "\<lparr>l_kernel = Spmv_add, l_g_size = 4, l_wait = []\<rparr>"
  let ?s1 = "\<lparr>ghost_buffer = [0], out_buffer = [1, 1], completed = [],
              transfers = [WriteBuffer [100] (Uploaded 0)],
              kernels = [NDRangeKernel ?l 2 (rem csr_example) 2]\<rparr> :: int device_state"
  have s1: "enqueue_mul_remote dev0 csr_example 2 []
             (enqueueWriteBuffer [100] (Uploaded 0) stale_state) = ?s1"
    by (simp add: enqueue_mul_remote_def enqueueWriteBuffer_def mul_remote_launch_def
        stale_state_def csr_example_def dev0_def)
  have k: "kernels ?s1 = NDRangeKernel ?l 2 (rem csr_example) 2 # []" by simp
  have w: "set (l_wait ?l) \<subseteq> set (completed ?s1)" by simp
  have r: "run_spmv ?l 2 (rem csr_example) (ghost_buffer ?s1) (out_buffer ?s1) 2 = Inr [1, 1]"
    by code_simp
  have "step ?s1 (?s1\<lparr>out_buffer := [1, 1], kernels := []\<rparr>)"
    by (rule step.kernel[OF k w r])
  then have "rtranclp step ?s1 (?s1\<lparr>out_buffer := [1, 1], kernels := []\<rparr>)"
    by (rule r_into_rtranclp)
  then show ?thesis unfolding s1 by (intro exI[of _ "?s1\<lparr>out_buffer := [1, 1], kernels := []\<rparr>"]) simp
qed

subsection \<open>The exchange planner\<close>

lemma set_set_insert [simp]: "set (set_insert c s) = insert c (set s)"
  by (auto simp: set_insert_def set_insort_key)

lemma sorted_set_insert: "sorted_wrt (<) s \<Longrightarrow> sorted_wrt (<) (set_insert c s)"
  by (auto simp: set_insert_def strict_sorted_iff sorted_insort distinct_insort)

lemma csr_ok_row_bound:
  assumes "csr_ok n M" "i < n" "j < row M ! (i + 1)"
  shows "j < length (col M)" "j < length (val M)"
proof -
  have "row M ! (i + 1) \<le> row M ! n"
    by (rule sorted_nth_mono) (use assms(1,2) in \<open>auto simp: csr_ok_def\<close>)
  with assms show "j < length (col M)" "j < length (val M)"
    by (auto simp: csr_ok_def)
qed

lemma max_size_less: "max_size < size_range"
  unfolding max_size_def size_range_def by simp

lemma size_nowrap:
  assumes "0 \<le> k" "k \<le> max_size"
  shows "k mod size_range = k"
proof -
  have "k < size_range" using assms(2) max_size_less by (rule le_less_trans)
  with assms(1) show ?thesis by (rule mod_pos_pos_trivial)
qed

lemma size_sub_nowrap:
  assumes "b \<le> a" "int (a - b) \<le> max_size"
  shows "size_sub a b = int (a - b)"
proof -
  have "int a - int b = int (a - b)" using assms(1) by (rule of_nat_diff[symmetric])
  then have "size_sub a b = int (a - b) mod size_range" unfolding size_sub_def by (rule arg_cong)
  also have "\<dots> = int (a - b)" by (rule size_nowrap[OF of_nat_0_le_iff assms(2)])
  finally show ?thesis .
qed

lemma reserve_ok: "k \<le> max_size \<Longrightarrow> reserve k = Inr ()"
  by (simp add: reserve_def)

lemma reserve_buffers_ok:
  assumes "csr_ok n M" "beg \<le> en" "en \<le> n" "vectors_fit n M"
  shows "reserve_buffers beg en M rc = Inr ()"
proof -
  have fit: "int n < max_size" "int (length (col M)) \<le> max_size"
    using assms(4) by (simp_all add: vectors_fit_def)
  have len: "length (row M) = n + 1" "sorted (row M)" "row M ! n = length (col M)"
    using assms(1) by (simp_all add: csr_ok_def)
  have "int (en - beg) \<le> max_size" using assms(3) fit(1) by linarith
  from size_sub_nowrap[OF assms(2) this]
  have a: "size_sub en beg = int (en - beg)" .
  have b: "int (en - beg) + 1 \<le> max_size" using assms(3) fit(1) by linarith
  have "0 \<le> int (en - beg) + 1" by linarith
  from size_nowrap[OF this b] b
  have r1: "reserve ((size_sub en beg + 1) mod size_range) = Inr ()"
    unfolding a by (simp add: reserve_ok)
  have le: "row M ! beg \<le> row M ! en" "row M ! en \<le> row M ! n"
    using assms(2,3) len(1,2) by (simp_all add: sorted_nth_mono)
  then have c: "int (row M ! en - row M ! beg) \<le> max_size"
    using fit(2) len(3) by linarith
  from size_sub_nowrap[OF le(1) c] c
  have r2: "reserve (size_sub (row M ! en) (row M ! beg)) = Inr ()"
    by (simp add: reserve_ok)
  have rds: "rd (row M) en = Inr (row M ! en)" "rd (row M) beg = Inr (row M ! beg)"
    using assms(2,3) len(1) by simp_all
  show ?thesis by (simp add: reserve_buffers_def rds r1 r2)
qed

lemma reserve_buffers_no_assert: "reserve_buffers beg en M rc \<noteq> Inl AssertionFailed"
  by (auto simp: reserve_buffers_def reserve_def rd_def rbind_def split: sum.splits if_splits)

lemma ghost_scan:
  assumes "\<forall>j\<in>set js. j < length cs"
  shows "\<exists>s'. foldM (ghost_step xb xe cs) js s = Inr s'
          \<and> set s' = set s \<union> set (filter (\<lambda>c. \<not> (xb \<le> c \<and> c < xe)) (map (\<lambda>j. cs ! j) js))
          \<and> (sorted_wrt (<) s \<longrightarrow> sorted_wrt (<) s')"
  using assms
proof (induction js arbitrary: s)
  case Nil
  show ?case by simp
next
  case (Cons j js)
  let ?s1 = "if cs ! j < xb \<or> xe \<le> cs ! j then set_insert (cs ! j) s else s"
  have step: "ghost_step xb xe cs j s = Inr ?s1"
    using Cons.prems by (simp add: ghost_step_def)
  from Cons.IH[of ?s1] Cons.prems obtain s' where
    s': "foldM (ghost_step xb xe cs) js ?s1 = Inr s'"
        "set s' = set ?s1 \<union> set (filter (\<lambda>c. \<not> (xb \<le> c \<and> c < xe)) (map (\<lambda>j. cs ! j) js))"
        "sorted_wrt (<) ?s1 \<longrightarrow> sorted_wrt (<) s'"
    by auto
  have "foldM (ghost_step xb xe cs) (j # js) s = Inr s'"
    using step s'(1) by simp
  moreover have "set s' = set s \<union> set (filter (\<lambda>c. \<not> (xb \<le> c \<and> c < xe)) (map (\<lambda>j. cs ! j) (j # js)))"
    using s'(2) by auto
  moreover have "sorted_wrt (<) s \<longrightarrow> sorted_wrt (<) s'"
    using s'(3) by (auto simp: sorted_set_insert)
  ultimately show ?case by blast
qed

lemma ghost_rows:
  assumes "csr_ok n M" "\<forall>i\<in>set is. i < n"
  shows "\<exists>s'. foldM (ghost_row M xb xe) is s = Inr s'
          \<and> set s' = set s \<union> set (concat (map (\<lambda>i. filter (\<lambda>c. \<not> (xb \<le> c \<and> c < xe))
                              (map (\<lambda>j. col M ! j) [row M ! i..<row M ! (i + 1)])) is))
          \<and> (sorted_wrt (<) s \<longrightarrow> sorted_wrt (<) s')"
  using assms(2)
proof (induction "is" arbitrary: s)
  case Nil
  show ?case by simp
next
  case (Cons i "is")
  have i: "i < n" using Cons.prems by simp
  then have len: "i < length (row M)" "i + 1 < length (row M)"
    using assms(1) by (auto simp: csr_ok_def)
  have inb: "\<forall>j\<in>set [row M ! i..<row M ! (i + 1)]. j < length (col M)"
    using csr_ok_row_bound(1)[OF assms(1) i] by auto
  from ghost_scan[OF inb, of xb xe s] obtain s1 where
    s1: "foldM (ghost_step xb xe (col M)) [row M ! i..<row M ! (i + 1)] s = Inr s1"
        "set s1 = set s \<union> set (filter (\<lambda>c. \<not> (xb \<le> c \<and> c < xe))
                    (map (\<lambda>j. col M ! j) [row M ! i..<row M ! (i + 1)]))"
        "sorted_wrt (<) s \<longrightarrow> sorted_wrt (<) s1"
    by blast
  have row: "ghost_row M xb xe i s = Inr s1"
    using len s1(1) by (simp add: ghost_row_def)
  from Cons.IH[of s1] Cons.prems obtain s' where
    s': "foldM (ghost_row M xb xe) is s1 = Inr s'"
        "set s' = set s1 \<union> set (concat (map (\<lambda>i. filter (\<lambda>c. \<not> (xb \<le> c \<and> c < xe))
                              (map (\<lambda>j. col M ! j) [row M ! i..<row M ! (i + 1)])) is))"
        "sorted_wrt (<) s1 \<longrightarrow> sorted_wrt (<) s'"
    by auto
  have "foldM (ghost_row M xb xe) (i # is) s = Inr s'"
    using row s'(1) by simp
  moreover have "set s' = set s \<union> set (concat (map (\<lambda>i. filter (\<lambda>c. \<not> (xb \<le> c \<and> c < xe))
                              (map (\<lambda>j. col M ! j) [row M ! i..<row M ! (i + 1)])) (i # is)))"
    using s'(2) s1(2) by auto
  moreover have "sorted_wrt (<) s \<longrightarrow> sorted_wrt (<) s'"
    using s'(3) s1(3) by simp
  ultimately show ?case by blast
qed

lemma part_ok_nth_le:
  assumes "part_ok D N p" "d \<le> e" "e \<le> D"
  shows "p ! d \<le> p ! e" "p ! e \<le> N"
proof -
  show "p ! d \<le> p ! e"
    by (rule sorted_nth_mono) (use assms in \<open>auto simp: part_ok_def\<close>)
  have "p ! e \<le> p ! D"
    by (rule sorted_nth_mono) (use assms in \<open>auto simp: part_ok_def\<close>)
  then show "p ! e \<le> N" using assms by (simp add: part_ok_def)
qed

lemma ghost_set_ok:
  assumes "csr_ok n M" "part_ok D n prt" "d < D"
  shows "\<exists>s. ghost_set M prt xpart d = Inr s
          \<and> set s = ghost_spec M (prt ! d) (prt ! (d + 1)) (xpart ! d) (xpart ! (d + 1))
          \<and> sorted_wrt (<) s"
proof -
  have "prt ! (d + 1) \<le> n"
    using part_ok_nth_le(2)[OF assms(2), of "d + 1" "d + 1"] assms(3) by simp
  then have "\<forall>i\<in>set [prt ! d..<prt ! (d + 1)]. i < n" by auto
  from ghost_rows[OF assms(1) this, of "xpart ! d" "xpart ! (d + 1)" "[]"]
  show ?thesis by (simp add: ghost_set_def ghost_spec_def)
qed

text \<open>A loop that replaces entry \<open>d\<close> of a vector in iteration \<open>d\<close>.\<close>

lemma foldM_each:
  assumes "length st0 = D" "k \<le> D" "\<forall>d<k. \<exists>e. f d (st0 ! d) = Inr e"
  shows "\<exists>st. foldM (\<lambda>d st. rbind (f d (st ! d)) (\<lambda>e. Inr (st[d := e]))) [0..<k] st0 = Inr st
          \<and> length st = D
          \<and> (\<forall>d<k. f d (st0 ! d) = Inr (st ! d))
          \<and> (\<forall>d. k \<le> d \<longrightarrow> st ! d = st0 ! d)"
  using assms(2,3)
proof (induction k)
  case 0
  show ?case using assms(1) by simp
next
  case (Suc k)
  have "k \<le> D" "\<forall>d<k. \<exists>e. f d (st0 ! d) = Inr e"
    using Suc.prems by auto
  from Suc.IH[OF this] obtain st where st:
    "foldM (\<lambda>d st. rbind (f d (st ! d)) (\<lambda>e. Inr (st[d := e]))) [0..<k] st0 = Inr st"
    "length st = D" "\<forall>d<k. f d (st0 ! d) = Inr (st ! d)" "\<forall>d. k \<le> d \<longrightarrow> st ! d = st0 ! d"
    by blast
  from Suc.prems obtain e where e: "f k (st0 ! k) = Inr e" by blast
  have "foldM (\<lambda>d st. rbind (f d (st ! d)) (\<lambda>e. Inr (st[d := e]))) [0..<Suc k] st0
        = Inr (st[k := e])"
    using st(1,4) e by (simp add: foldM_append)
  moreover have "\<forall>d<Suc k. f d (st0 ! d) = Inr (st[k := e] ! d)"
    using st(2,3) e Suc.prems(1) by (auto simp: nth_list_update less_Suc_eq)
  moreover have "\<forall>d. Suc k \<le> d \<longrightarrow> st[k := e] ! d = st0 ! d"
    using st(4) by (auto simp: nth_list_update)
  ultimately show ?case using st(2) by auto
qed

lemma ghost_sets_ok:
  assumes "csr_ok n M" "part_ok D n prt"
  shows "\<exists>rc. ghost_sets M prt xpart D = Inr rc \<and> length rc = D
          \<and> (\<forall>d<D. set (rc ! d) = ghost_spec M (prt ! d) (prt ! (d + 1)) (xpart ! d) (xpart ! (d + 1))
                    \<and> sorted_wrt (<) (rc ! d))"
proof -
  let ?f = "\<lambda>d (_::nat list). ghost_set M prt xpart d"
  have "\<forall>d<D. \<exists>e. ?f d (replicate D [] ! d) = Inr e"
    using ghost_set_ok[OF assms] by blast
  from foldM_each[where f = ?f and ?st0.0 = "replicate D []" and D = D and k = D, OF _ _ this]
  obtain rc where rc: "ghost_sets M prt xpart D = Inr rc" "length rc = D"
      "\<forall>d<D. ghost_set M prt xpart d = Inr (rc ! d)"
    by (auto simp: ghost_sets_def)
  have "set (rc ! d) = ghost_spec M (prt ! d) (prt ! (d + 1)) (xpart ! d) (xpart ! (d + 1))
                \<and> sorted_wrt (<) (rc ! d)" if "d < D" for d
  proof -
    from ghost_set_ok[OF assms that, of xpart] obtain s where
      "ghost_set M prt xpart d = Inr s"
      "set s = ghost_spec M (prt ! d) (prt ! (d + 1)) (xpart ! d) (xpart ! (d + 1))"
      "sorted_wrt (<) s" by blast
    moreover have "ghost_set M prt xpart d = Inr (rc ! d)" using rc(3) that by blast
    ultimately show ?thesis by simp
  qed
  with rc(1,2) show ?thesis by blast
qed

lemma fold_set_insert:
  "set (fold set_insert s acc) = set acc \<union> set s"
  "sorted_wrt (<) acc \<Longrightarrow> sorted_wrt (<) (fold set_insert s acc)"
  by (induction s arbitrary: acc) (auto simp: sorted_set_insert)

lemma send_list_acc:
  "set (fold (\<lambda>s acc. fold set_insert s acc) rcs acc) = set acc \<union> \<Union> (set ` set rcs)"
  "sorted_wrt (<) acc \<Longrightarrow> sorted_wrt (<) (fold (\<lambda>s acc. fold set_insert s acc) rcs acc)"
  by (induction rcs arbitrary: acc) (auto simp: fold_set_insert)

lemma send_list_set: "set (send_list rc) = \<Union> (set ` set rc)"
  by (simp add: send_list_def send_list_acc)

lemma send_list_sorted: "sorted_wrt (<) (send_list rc)"
  by (simp add: send_list_def send_list_acc)

text \<open>The loop that records the positions of the ghost columns in the send list.\<close>

lemma recv_loop:
  assumes "j + length (filter (\<lambda>i. cols ! i \<in> set s) is) \<le> length recv"
  shows "foldM (recv_step cols s) is (recv, j)
         = Inr (take j recv @ filter (\<lambda>i. cols ! i \<in> set s) is
                  @ drop (j + length (filter (\<lambda>i. cols ! i \<in> set s) is)) recv,
                j + length (filter (\<lambda>i. cols ! i \<in> set s) is))"
  using assms
proof (induction "is" arbitrary: recv j)
  case Nil
  show ?case by simp
next
  case (Cons i "is")
  show ?case
  proof (cases "cols ! i \<in> set s")
    case True
    with Cons.prems have j: "j < length recv"
      and le: "Suc j + length (filter (\<lambda>i. cols ! i \<in> set s) is) \<le> length (recv[j := i])"
      by auto
    have tk: "take (Suc j) (recv[j := i]) = take j recv @ [i]"
      using j by (simp add: take_Suc_conv_app_nth)
    show ?thesis
      using True j Cons.IH[OF le] by (simp add: recv_step_def tk)
  next
    case False
    with Cons.prems have "j + length (filter (\<lambda>i. cols ! i \<in> set s) is) \<le> length recv"
      by simp
    from Cons.IH[OF this] False show ?thesis
      by (simp add: recv_step_def)
  qed
qed

lemma positions_filter:
  "map (\<lambda>i. cols ! i) (filter (\<lambda>i. cols ! i \<in> S) [0..<length cols]) = filter (\<lambda>c. c \<in> S) cols"
proof -
  have "filter (\<lambda>c. c \<in> S) cols = filter (\<lambda>c. c \<in> S) (map (\<lambda>i. cols ! i) [0..<length cols])"
    by (simp add: map_nth)
  also have "\<dots> = map (\<lambda>i. cols ! i) (filter (\<lambda>i. cols ! i \<in> S) [0..<length cols])"
    by (simp add: filter_map comp_def)
  finally show ?thesis by simp
qed

lemma sorted_distinct_filter_eq:
  assumes "sorted_wrt (<) cols" "sorted_wrt (<) s" "set s \<subseteq> set cols"
  shows "filter (\<lambda>c. c \<in> set s) cols = (s::nat list)"
proof (rule sorted_distinct_set_unique)
  have "sorted_wrt (<) (filter (\<lambda>c. c \<in> set s) cols)"
    using assms(1) by (rule sorted_wrt_filter)
  then show "sorted (filter (\<lambda>c. c \<in> set s) cols)" "distinct (filter (\<lambda>c. c \<in> set s) cols)"
    by (simp_all add: strict_sorted_iff)
  show "sorted s" "distinct s" using assms(2) by (auto simp: strict_sorted_iff)
  show "set (filter (\<lambda>c. c \<in> set s) cols) = set s" using assms(3) by auto
qed

lemma positions_count:
  assumes "sorted_wrt (<) cols" "sorted_wrt (<) s" "set s \<subseteq> set (cols::nat list)"
  shows "length (filter (\<lambda>i. cols ! i \<in> set s) [0..<length cols]) = length s"
proof -
  have "length (filter (\<lambda>i. cols ! i \<in> set s) [0..<length cols])
        = length (map (\<lambda>i. cols ! i) (filter (\<lambda>i. cols ! i \<in> set s) [0..<length cols]))"
    by simp
  also have "\<dots> = length s"
    unfolding positions_filter sorted_distinct_filter_eq[OF assms] ..
  finally show ?thesis .
qed

lemma setup_recv_ok:
  assumes "sorted_wrt (<) cols" "sorted_wrt (<) s" "set s \<subseteq> set cols"
  shows "setup_recv cols s e =
         Inr (if s = [] then e
              else e\<lparr>cols_to_recv := filter (\<lambda>i. cols ! i \<in> set s) [0..<length cols],
                     vals_to_recv := replicate (length s) 0,
                     exc_rx := replicate (length s) 0\<rparr>)"
proof (cases "s = []")
  case True
  then show ?thesis by (simp add: setup_recv_def)
next
  case False
  have cnt: "length (filter (\<lambda>i. cols ! i \<in> set s) [0..<length cols]) = length s"
    by (rule positions_count[OF assms])
  have "foldM (recv_step cols s) [0..<length cols] (replicate (length s) 0, 0)
        = Inr (filter (\<lambda>i. cols ! i \<in> set s) [0..<length cols], length s)"
    using recv_loop[of 0 cols s "[0..<length cols]" "replicate (length s) 0"]
    by (simp add: cnt)
  with False show ?thesis by (simp add: setup_recv_def Let_def)
qed

declare lower_bound.simps [simp del]

lemma lower_bound_spec:
  assumes "sorted xs" "lo \<le> hi" "hi \<le> length xs"
  shows "lo \<le> lower_bound xs lo hi v \<and> lower_bound xs lo hi v \<le> hi
         \<and> (\<forall>i. lo \<le> i \<and> i < lower_bound xs lo hi v \<longrightarrow> xs ! i < v)
         \<and> (\<forall>i. lower_bound xs lo hi v \<le> i \<and> i < hi \<longrightarrow> v \<le> xs ! i)"
  using assms
proof (induction xs lo hi v rule: lower_bound.induct)
  case (1 xs lo hi v)
  show ?case
  proof (cases "lo < hi")
    case False
    then have "lower_bound xs lo hi v = lo"
      by (subst lower_bound.simps) simp
    with False "1.prems" show ?thesis by simp
  next
    case True
    define mid where "mid = lo + (hi - lo) div 2"
    have mid: "lo \<le> mid" "mid < hi"
      using True by (auto simp: mid_def)
    show ?thesis
    proof (cases "xs ! mid < v")
      case less: True
      have eq: "lower_bound xs lo hi v = lower_bound xs (mid + 1) hi v"
        using True less by (simp add: lower_bound.simps[of xs lo hi v] mid_def Let_def)
      have IH: "mid + 1 \<le> lower_bound xs (mid + 1) hi v \<and> lower_bound xs (mid + 1) hi v \<le> hi
         \<and> (\<forall>i. mid + 1 \<le> i \<and> i < lower_bound xs (mid + 1) hi v \<longrightarrow> xs ! i < v)
         \<and> (\<forall>i. lower_bound xs (mid + 1) hi v \<le> i \<and> i < hi \<longrightarrow> v \<le> xs ! i)"
        using "1.IH"(1)[OF True mid_def less] "1.prems" mid by simp
      have low: "xs ! i < v" if "i \<le> mid" for i
      proof -
        have "xs ! i \<le> xs ! mid"
          by (rule sorted_nth_mono) (use that mid "1.prems" in auto)
        with less show ?thesis by simp
      qed
      have "\<forall>i. lo \<le> i \<and> i < lower_bound xs (mid + 1) hi v \<longrightarrow> xs ! i < v"
      proof (intro allI impI)
        fix i assume "lo \<le> i \<and> i < lower_bound xs (mid + 1) hi v"
        then show "xs ! i < v"
          using IH low[of i] by (cases "i \<le> mid") auto
      qed
      with IH mid show ?thesis unfolding eq by auto
    next
      case geq: False
      have eq: "lower_bound xs lo hi v = lower_bound xs lo mid v"
        using True geq by (simp add: lower_bound.simps[of xs lo hi v] mid_def Let_def)
      have IH: "lo \<le> lower_bound xs lo mid v \<and> lower_bound xs lo mid v \<le> mid
         \<and> (\<forall>i. lo \<le> i \<and> i < lower_bound xs lo mid v \<longrightarrow> xs ! i < v)
         \<and> (\<forall>i. lower_bound xs lo mid v \<le> i \<and> i < mid \<longrightarrow> v \<le> xs ! i)"
        using "1.IH"(2)[OF True mid_def geq] "1.prems" mid by simp
      have high: "v \<le> xs ! i" if "mid \<le> i" "i < hi" for i
      proof -
        have "xs ! mid \<le> xs ! i"
          by (rule sorted_nth_mono) (use that "1.prems" in auto)
        with geq show ?thesis by simp
      qed
      have "\<forall>i. lower_bound xs lo mid v \<le> i \<and> i < hi \<longrightarrow> v \<le> xs ! i"
      proof (intro allI impI)
        fix i assume "lower_bound xs lo mid v \<le> i \<and> i < hi"
        then show "v \<le> xs ! i"
          using IH high[of i] by (cases "i < mid") auto
      qed
      with IH mid show ?thesis unfolding eq by auto
    qed
  qed
qed

text \<open>Started where the elements below an earlier bound end, the search finds the
  position of the bound in the whole vector.\<close>

lemma lower_bound_pos:
  assumes "sorted cols" "lb_pos cols u b" "u \<le> v"
  shows "lb_pos cols v (lower_bound cols b (length cols) v)"
    and "b \<le> lower_bound cols b (length cols) v"
proof -
  let ?p = "lower_bound cols b (length cols) v"
  have b: "b \<le> length cols" using assms(2) by (simp add: lb_pos_def)
  from lower_bound_spec[OF assms(1) b order_refl, of v]
  have p: "b \<le> ?p" "?p \<le> length cols" "\<forall>i. b \<le> i \<and> i < ?p \<longrightarrow> cols ! i < v"
    "\<forall>i. ?p \<le> i \<and> i < length cols \<longrightarrow> v \<le> cols ! i"
    by blast+
  show "b \<le> ?p" by fact
  have "i < ?p \<longleftrightarrow> cols ! i < v" if i: "i < length cols" for i
  proof (cases "i < b")
    case True
    have "cols ! i < u" using assms(2) i True unfolding lb_pos_def by blast
    with True p(1) assms(3) show ?thesis by auto
  next
    case False
    with p(3,4) i show ?thesis by (metis leD leI)
  qed
  with p(2) show "lb_pos cols v ?p" by (simp add: lb_pos_def)
qed

lemma lb_pos_zero: "lb_pos cols 0 0"
  by (simp add: lb_pos_def)

lemma lb_pos_mono:
  assumes "lb_pos cols u a" "lb_pos cols v b" "u \<le> v"
  shows "a \<le> b"
proof (rule ccontr)
  assume "\<not> a \<le> b"
  then have "b < a" by simp
  moreover have "a \<le> length cols" using assms(1) by (simp add: lb_pos_def)
  ultimately have b: "b < length cols" by simp
  with \<open>b < a\<close> assms(1) have "cols ! b < u" unfolding lb_pos_def by blast
  with assms(3) have "cols ! b < v" by simp
  with b assms(2) have "b < b" unfolding lb_pos_def by blast
  then show False by simp
qed

lemma cidx_fold_inv:
  assumes "sorted cols" "sorted xpart" "length xpart = D + 1" "length ci0 = D + 1" "k \<le> D + 1"
  shows "length (fst (fold (cidx_step cols xpart) [0..<k] (ci0, 0))) = D + 1
       \<and> snd (fold (cidx_step cols xpart) [0..<k] (ci0, 0))
         = (if k = 0 then 0 else fst (fold (cidx_step cols xpart) [0..<k] (ci0, 0)) ! (k - 1))
       \<and> (\<forall>d<k. lb_pos cols (xpart ! d) (fst (fold (cidx_step cols xpart) [0..<k] (ci0, 0)) ! d))"
  using assms(5)
proof (induction k)
  case 0
  show ?case using assms(4) by simp
next
  case (Suc k)
  obtain ci beg where st: "fold (cidx_step cols xpart) [0..<k] (ci0, 0) = (ci, beg)"
    by (cases "fold (cidx_step cols xpart) [0..<k] (ci0, 0)")
  have "k \<le> D + 1" using Suc.prems by simp
  from Suc.IH[OF this, unfolded st fst_conv snd_conv]
  have IH: "length ci = D + 1" "beg = (if k = 0 then 0 else ci ! (k - 1))"
      "\<forall>d<k. lb_pos cols (xpart ! d) (ci ! d)"
    by blast+
  let ?p = "lower_bound cols beg (length cols) (xpart ! k)"
  have "fold (cidx_step cols xpart) [0..<Suc k] (ci0, 0) = cidx_step cols xpart k (ci, beg)"
    by (simp add: st)
  then have step: "fold (cidx_step cols xpart) [0..<Suc k] (ci0, 0) = (ci[k := ?p], ?p)"
    by (simp add: cidx_step_def Let_def)
  have "\<exists>u. lb_pos cols u beg \<and> u \<le> xpart ! k"
  proof (cases "k = 0")
    case True
    then show ?thesis using IH(2) lb_pos_zero by auto
  next
    case False
    have "xpart ! (k - 1) \<le> xpart ! k"
      by (rule sorted_nth_mono) (use assms(2,3) Suc.prems in auto)
    moreover have "lb_pos cols (xpart ! (k - 1)) beg"
      using False IH(2,3) by simp
    ultimately show ?thesis by blast
  qed
  then obtain u where u: "lb_pos cols u beg" "u \<le> xpart ! k" by blast
  have p: "lb_pos cols (xpart ! k) ?p"
    by (rule lower_bound_pos(1)[OF assms(1) u])
  have k: "k < length ci" using IH(1) Suc.prems by simp
  have "\<forall>d<Suc k. lb_pos cols (xpart ! d) (ci[k := ?p] ! d)"
    using IH(3) p k by (auto simp: nth_list_update less_Suc_eq)
  moreover have "length (ci[k := ?p]) = D + 1" "ci[k := ?p] ! (Suc k - 1) = ?p"
    using IH(1) k by simp_all
  ultimately show ?case
    unfolding step fst_conv snd_conv by simp
qed

lemma build_cidx_ok:
  assumes "sorted cols" "sorted xpart" "length xpart = D + 1"
  shows "length (build_cidx cols xpart D) = D + 1"
    and "\<And>d. d \<le> D \<Longrightarrow> lb_pos cols (xpart ! d) (build_cidx cols xpart D ! d)"
  using cidx_fold_inv[OF assms, of "replicate (D + 1) 0" "D + 1"]
  unfolding build_cidx_def by (simp, simp)

lemma fold_update_range:
  "b \<le> length y \<Longrightarrow>
   fold (\<lambda>i y. y[i := h i (y ! i)]) [a..<b] y
   = map (\<lambda>i. if a \<le> i \<and> i < b then h i (y ! i) else y ! i) [0..<length y]"
proof (induction b)
  case 0
  show ?case by (simp add: map_nth)
next
  case (Suc b)
  show ?case
  proof (cases "a \<le> b")
    case True
    from Suc have IH: "fold (\<lambda>i y. y[i := h i (y ! i)]) [a..<b] y
                 = map (\<lambda>i. if a \<le> i \<and> i < b then h i (y ! i) else y ! i) [0..<length y]"
      and b: "b < length y" by simp_all
    show ?thesis
      by (rule nth_equalityI) (use b True in \<open>auto simp: IH nth_list_update less_Suc_eq\<close>)
  next
    case False
    then have "[a..<Suc b] = []" by simp
    moreover have "map (\<lambda>i. if a \<le> i \<and> i < Suc b then h i (y ! i) else y ! i) [0..<length y] = y"
      by (rule nth_equalityI) (use False in auto)
    ultimately show ?thesis by simp
  qed
qed

lemma take_drop_map_nth:
  assumes "a \<le> b" "b \<le> length xs"
  shows "take (b - a) (drop a xs) = map (\<lambda>i. xs ! i) [a..<b]"
  by (rule nth_equalityI) (use assms in auto)

lemma rebase_fold_inv:
  assumes "\<forall>d<D. ci ! d \<le> ci ! (d + 1)" "\<forall>d\<le>D. ci ! d \<le> length cols" "length ex = D" "k \<le> D"
  shows "length (fst (fold (rebase_dev ci xpart) [0..<k] (cols, ex))) = length cols
       \<and> (\<forall>i. ci ! k \<le> i \<and> i < length cols
              \<longrightarrow> fst (fold (rebase_dev ci xpart) [0..<k] (cols, ex)) ! i = cols ! i)
       \<and> length (snd (fold (rebase_dev ci xpart) [0..<k] (cols, ex))) = D
       \<and> (\<forall>d<D. snd (fold (rebase_dev ci xpart) [0..<k] (cols, ex)) ! d
                  = (if d < k then sent cols ci xpart d (ex ! d) else ex ! d))"
  using assms(4)
proof (induction k)
  case 0
  show ?case using assms(3) by simp
next
  case (Suc k)
  obtain cs es where st: "fold (rebase_dev ci xpart) [0..<k] (cols, ex) = (cs, es)"
    by (cases "fold (rebase_dev ci xpart) [0..<k] (cols, ex)")
  have k: "k < D" "k \<le> D" using Suc.prems by simp_all
  from Suc.IH[OF k(2), unfolded st fst_conv snd_conv]
  have IH: "length cs = length cols" "\<forall>i. ci ! k \<le> i \<and> i < length cols \<longrightarrow> cs ! i = cols ! i"
      "length es = D"
      "\<forall>d<D. es ! d = (if d < k then sent cols ci xpart d (ex ! d) else ex ! d)"
    by blast+
  have next_eq: "fold (rebase_dev ci xpart) [0..<Suc k] (cols, ex) = rebase_dev ci xpart k (cs, es)"
    by (simp add: st)
  have le: "ci ! k \<le> ci ! Suc k" "ci ! Suc k \<le> length cols"
    using assms(1,2) k by auto
  show ?case
  proof (cases "ci ! Suc k - ci ! k \<noteq> 0")
    case False
    then have step: "rebase_dev ci xpart k (cs, es) = (cs, es)"
      by (simp add: rebase_dev_def)
    have same: "ci ! Suc k = ci ! k" using False le by simp
    have "\<forall>d<D. es ! d = (if d < Suc k then sent cols ci xpart d (ex ! d) else ex ! d)"
      using IH(4) False by (auto simp: less_Suc_eq sent_def)
    then show ?thesis
      unfolding next_eq step fst_conv snd_conv using IH(1,2,3) same by simp
  next
    case True
    let ?cs = "fold (\<lambda>i c. c[i := c ! i - xpart ! k]) [ci ! k..<ci ! Suc k] cs"
    let ?e = "(es ! k)\<lparr>cols_to_send := take (ci ! Suc k - ci ! k) (drop (ci ! k) ?cs),
                       vals_to_send := replicate (ci ! Suc k - ci ! k) 0\<rparr>"
    have step: "rebase_dev ci xpart k (cs, es) = (?cs, es[k := ?e])"
      using True by (simp add: rebase_dev_def Let_def)
    have cs': "?cs = map (\<lambda>i. if ci ! k \<le> i \<and> i < ci ! Suc k then cs ! i - xpart ! k else cs ! i)
                       [0..<length cs]"
      using fold_update_range[of "ci ! Suc k" cs "\<lambda>i c. c - xpart ! k" "ci ! k"] le IH(1)
      by simp
    have len: "length ?cs = length cols" by (simp add: cs' IH(1))
    have beyond: "\<forall>i. ci ! Suc k \<le> i \<and> i < length cols \<longrightarrow> ?cs ! i = cols ! i"
      using le(1) IH(1,2) by (simp add: cs')
    have slice: "take (ci ! Suc k - ci ! k) (drop (ci ! k) ?cs)
                 = map (\<lambda>i. cols ! i - xpart ! k) [ci ! k..<ci ! Suc k]"
    proof -
      have "take (ci ! Suc k - ci ! k) (drop (ci ! k) ?cs) = map (\<lambda>i. ?cs ! i) [ci ! k..<ci ! Suc k]"
        by (rule take_drop_map_nth) (use le len in auto)
      also have "\<dots> = map (\<lambda>i. cols ! i - xpart ! k) [ci ! k..<ci ! Suc k]"
        by (rule map_cong) (use le IH(1,2) in \<open>auto simp: cs'\<close>)
      finally show ?thesis .
    qed
    have ek: "?e = sent cols ci xpart k (ex ! k)"
      using True IH(4) k(1) by (simp add: sent_def slice)
    have "\<forall>d<D. es[k := ?e] ! d = (if d < Suc k then sent cols ci xpart d (ex ! d) else ex ! d)"
      using IH(3,4) k(1) unfolding ek by (auto simp: nth_list_update less_Suc_eq)
    then show ?thesis
      unfolding next_eq step fst_conv snd_conv using len beyond IH(3) by simp
  qed
qed

lemma update_fresh: "k \<notin> fst ` set al \<Longrightarrow> AList.update k v al = al @ [(k, v)]"
  by (induction al) auto

lemma r2l_fold:
  assumes "distinct s" "set s \<inter> fst ` set r = {}"
  shows "fold (\<lambda>c r2l. AList.update c (length r2l) r2l) s r
         = r @ zip s [length r..<length r + length s]"
  using assms
proof (induction s arbitrary: r)
  case Nil
  show ?case by simp
next
  case (Cons c s)
  have fresh: "c \<notin> fst ` set r" using Cons.prems by auto
  have "set s \<inter> fst ` set (r @ [(c, length r)]) = {}"
    using Cons.prems by auto
  from Cons.IH[OF _ this] Cons.prems
  have "fold (\<lambda>c r2l. AList.update c (length r2l) r2l) s (r @ [(c, length r)])
        = (r @ [(c, length r)]) @ zip s [Suc (length r)..<Suc (length r) + length s]"
    by simp
  moreover have "[length r..<length r + length (c # s)]
                 = length r # [Suc (length r)..<Suc (length r) + length s]"
    by (subst upt_conv_Cons) (simp_all del: upt_Suc)
  ultimately show ?case
    by (simp add: update_fresh[OF fresh] del: upt_Suc)
qed

lemma r2l_of_nth:
  assumes "sorted_wrt (<) s" "j < length s"
  shows "map_of (r2l_of s) (s ! j) = Some j"
proof -
  have d: "distinct s" using assms(1) by (simp add: strict_sorted_iff)
  have "r2l_of s = zip s [0..<length s]"
    using r2l_fold[OF d, of "[]"] by (simp add: r2l_of_def)
  moreover have "map_of (zip s [0..<length s]) (s ! j) = Some ([0..<length s] ! j)"
    by (rule map_of_zip_nth) (use d assms(2) in auto)
  ultimately show ?thesis using assms(2) by simp
qed

lemma redistribute_ok:
  assumes "\<forall>p\<in>set recv. p < length rxs" "length vals = length recv"
  shows "redistribute recv rxs vals = Inr (map (\<lambda>j. rxs ! (recv ! j)) [0..<length recv])"
proof -
  have "foldM (\<lambda>i vals. rbind (rd recv i) (\<lambda>p. rbind (rd rxs p) (\<lambda>v. wr vals i v)))
          [0..<length recv] vals
        = Inr (fold (\<lambda>i y. y[i := (\<lambda>i _. rxs ! (recv ! i)) i (y ! i)]) [0..<length recv] vals)
          \<and> length (fold (\<lambda>i y. y[i := (\<lambda>i _. rxs ! (recv ! i)) i (y ! i)]) [0..<length recv] vals)
              = length recv"
    by (rule foldM_pure[where I = "\<lambda>s. length s = length recv"]) (use assms in auto)
  then show ?thesis
    using fold_update_upt[of "length recv" vals "\<lambda>i _. rxs ! (recv ! i)"] assms(2)
    by (simp add: redistribute_def)
qed

lemma ghost_spec_cols:
  assumes "csr_ok n M" "en \<le> n"
  shows "ghost_spec M beg en xb xe \<subseteq> set (col M)"
proof
  fix c assume "c \<in> ghost_spec M beg en xb xe"
  then obtain i j where ij: "beg \<le> i" "i < en" "row M ! i \<le> j" "j < row M ! (i + 1)" "c = col M ! j"
    by (auto simp: ghost_spec_def)
  have "j < length (col M)"
    using csr_ok_row_bound(1)[OF assms(1) _ ij(4)] ij(2) assms(2) by simp
  with ij(5) show "c \<in> set (col M)" by simp
qed

lemma setup_exchange_struct:
  assumes D: "2 \<le> length (queue A)" and csr: "csr_ok n M"
    and prt: "part_ok (length (queue A)) n (part A)"
    and ex: "length (exc A) = length (queue A)"
    and xp: "sorted xpart" "length xpart = length (queue A) + 1"
  shows "\<exists>rc. setup_exchange A xpart M =
           Inr (rc, if send_list rc = [] then A
                    else A\<lparr>exc := map (\<lambda>d. sent (send_list rc) (build_cidx (send_list rc) xpart (length (queue A)))
                                           xpart d (recvd (send_list rc) (rc ! d) (exc A ! d)))
                                    [0..<length (queue A)],
                            cidx := build_cidx (send_list rc) xpart (length (queue A)),
                            rx := replicate (length (send_list rc)) 0\<rparr>)
          \<and> length rc = length (queue A)
          \<and> (\<forall>d<length (queue A).
                set (rc ! d) = ghost_spec M (part A ! d) (part A ! (d + 1)) (xpart ! d) (xpart ! (d + 1))
                \<and> sorted_wrt (<) (rc ! d))"
proof -
  let ?D = "length (queue A)"
  from ghost_sets_ok[OF csr prt, of xpart] obtain rc where
    rc: "ghost_sets M (part A) xpart ?D = Inr rc" "length rc = ?D"
      "\<forall>d<?D. set (rc ! d) = ghost_spec M (part A ! d) (part A ! (d + 1)) (xpart ! d) (xpart ! (d + 1))
               \<and> sorted_wrt (<) (rc ! d)"
    by blast
  let ?cols = "send_list rc"
  let ?ci = "build_cidx ?cols xpart ?D"
  have sc: "sorted_wrt (<) ?cols" by (rule send_list_sorted)
  then have sc': "sorted ?cols" by (rule strict_sorted_imp_sorted)
  have sub: "set (rc ! d) \<subseteq> set ?cols" if "d < ?D" for d
  proof -
    have "rc ! d \<in> set rc" using that rc(2) by simp
    then show ?thesis by (auto simp: send_list_set)
  qed
  have recv: "setup_recv ?cols (rc ! d) e = Inr (recvd ?cols (rc ! d) e)" if "d < ?D" for d
    and e :: "'a exdata"
    using setup_recv_ok[OF sc _ sub[OF that], of e] rc(3) that by (simp add: recvd_def)
  have "\<forall>d<?D. \<exists>e. setup_recv ?cols (rc ! d) (exc A ! d) = Inr e"
    using recv by blast
  from foldM_each[where f = "\<lambda>d. setup_recv ?cols (rc ! d)" and ?st0.0 = "exc A" and D = ?D and k = ?D,
      OF ex order_refl this]
  obtain ex1 where ex1:
    "foldM (\<lambda>d st. rbind (setup_recv ?cols (rc ! d) (st ! d)) (\<lambda>e. Inr (st[d := e]))) [0..<?D] (exc A)
     = Inr ex1"
    "length ex1 = ?D" "\<forall>d<?D. setup_recv ?cols (rc ! d) (exc A ! d) = Inr (ex1 ! d)"
    by blast
  have ex1_nth: "ex1 ! d = recvd ?cols (rc ! d) (exc A ! d)" if "d < ?D" for d
    using ex1(3) recv[OF that, of "exc A ! d"] that by simp
  have ci: "length ?ci = ?D + 1" "\<And>d. d \<le> ?D \<Longrightarrow> lb_pos ?cols (xpart ! d) (?ci ! d)"
    using build_cidx_ok[OF sc' xp] by blast+
  have mono: "\<forall>d<?D. ?ci ! d \<le> ?ci ! (d + 1)"
  proof (intro allI impI)
    fix d assume d: "d < ?D"
    have "xpart ! d \<le> xpart ! (d + 1)"
      by (rule sorted_nth_mono) (use xp d in auto)
    moreover have "lb_pos ?cols (xpart ! d) (?ci ! d)" "lb_pos ?cols (xpart ! (d + 1)) (?ci ! (d + 1))"
      using ci(2)[of d] ci(2)[of "d + 1"] d by simp_all
    ultimately show "?ci ! d \<le> ?ci ! (d + 1)"
      using lb_pos_mono by blast
  qed
  have bound: "\<forall>d\<le>?D. ?ci ! d \<le> length ?cols"
    using ci(2) by (auto simp: lb_pos_def)
  from rebase_fold_inv[OF mono bound ex1(2) order_refl, of xpart]
  have rb: "length (snd (fold (rebase_dev ?ci xpart) [0..<?D] (?cols, ex1))) = ?D"
    "\<forall>d<?D. snd (fold (rebase_dev ?ci xpart) [0..<?D] (?cols, ex1)) ! d
             = sent ?cols ?ci xpart d (ex1 ! d)"
    by simp_all
  have exc_eq: "snd (fold (rebase_dev ?ci xpart) [0..<?D] (?cols, ex1))
                = map (\<lambda>d. sent ?cols ?ci xpart d (recvd ?cols (rc ! d) (exc A ! d))) [0..<?D]"
    by (rule nth_equalityI) (use rb ex1_nth in auto)
  have "setup_exchange A xpart M =
           Inr (rc, if ?cols = [] then A
                    else A\<lparr>exc := snd (fold (rebase_dev ?ci xpart) [0..<?D] (?cols, ex1)),
                            cidx := ?ci, rx := replicate (length ?cols) 0\<rparr>)"
  proof -
    have "\<not> ?D \<le> 1" using D by simp
    then show ?thesis
      unfolding setup_exchange_def Let_def
      by (simp only: if_False rc(1) rbind_Inr ex1(1) split_beta fst_conv snd_conv
            length_0_conv if_not_P if_P split: if_splits) auto
  qed
  with rc(2,3) show ?thesis unfolding exc_eq by blast
qed

lemma setup_exchange_fields:
  assumes "2 \<le> length (queue A)" "csr_ok n M" "part_ok (length (queue A)) n (part A)"
    and "length (exc A) = length (queue A)" "sorted xpart" "length xpart = length (queue A) + 1"
  shows "\<exists>rc A'. setup_exchange A xpart M = Inr (rc, A') \<and> length rc = length (queue A)
          \<and> (\<forall>d<length (queue A).
                set (rc ! d)
                = ghost_spec M (part A ! d) (part A ! (d + 1)) (xpart ! d) (xpart ! (d + 1))
                \<and> sorted_wrt (<) (rc ! d))
          \<and> (send_list rc = [] \<longrightarrow> A' = A)
          \<and> (send_list rc \<noteq> [] \<longrightarrow>
                cidx A' = build_cidx (send_list rc) xpart (length (queue A))
                \<and> rx A' = replicate (length (send_list rc)) 0
                \<and> queue A' = queue A \<and> part A' = part A \<and> mtx A' = mtx A
                \<and> length (exc A') = length (queue A)
                \<and> (\<forall>d<length (queue A).
                      exc A' ! d = sent (send_list rc)
                                     (build_cidx (send_list rc) xpart (length (queue A))) xpart d
                                     (recvd (send_list rc) (rc ! d) (exc A ! d))))"
proof -
  from setup_exchange_struct[OF assms] obtain rc where
    rc: "setup_exchange A xpart M =
           Inr (rc, if send_list rc = [] then A
                    else A\<lparr>exc := map (\<lambda>d. sent (send_list rc) (build_cidx (send_list rc) xpart (length (queue A)))
                                           xpart d (recvd (send_list rc) (rc ! d) (exc A ! d)))
                                    [0..<length (queue A)],
                            cidx := build_cidx (send_list rc) xpart (length (queue A)),
                            rx := replicate (length (send_list rc)) 0\<rparr>)"
      "length rc = length (queue A)"
      "\<forall>d<length (queue A).
          set (rc ! d) = ghost_spec M (part A ! d) (part A ! (d + 1)) (xpart ! d) (xpart ! (d + 1))
          \<and> sorted_wrt (<) (rc ! d)"
    by blast
  show ?thesis
  proof (cases "send_list rc = []")
    case True
    with rc show ?thesis by (intro exI[of _ rc] exI[of _ A]) simp
  next
    case False
    with rc show ?thesis
      by (intro exI[of _ rc]
           exI[of _ "A\<lparr>exc := map (\<lambda>d. sent (send_list rc) (build_cidx (send_list rc) xpart (length (queue A)))
                                           xpart d (recvd (send_list rc) (rc ! d) (exc A ! d)))
                                    [0..<length (queue A)],
                            cidx := build_cidx (send_list rc) xpart (length (queue A)),
                            rx := replicate (length (send_list rc)) 0\<rparr>"]) simp
  qed
qed


lemma lb_pos_between:
  assumes "lb_pos cols u a" "lb_pos cols v b" "i < length cols"
  shows "(a \<le> i \<and> i < b) \<longleftrightarrow> (u \<le> cols ! i \<and> cols ! i < v)"
  using assms unfolding lb_pos_def by (metis not_le)

lemma cols_to_recv_sent [simp]:
  "cols_to_recv (sent cols ci xpart d e) = cols_to_recv e"
  "vals_to_recv (sent cols ci xpart d e) = vals_to_recv e"
  by (simp_all add: sent_def)


subsection \<open>C3: the ghost sets\<close>

text \<open>
  C3. With at least two devices, on a well-formed CSR input and a partition of the
  rows, \<^verbatim>\<open>setup_exchange\<close> returns, and the set \<^verbatim>\<open>remote_cols[d]\<close> it returns for
  device \<open>d\<close> is exactly the set of the columns \<^verbatim>\<open>col[j]\<close>, \<open>j\<close> in
  \<^verbatim>\<open>[row[i], row[i+1])\<close>, \<open>i\<close> in \<^verbatim>\<open>[part[d], part[d+1])\<close>, that lie outside
  \<^verbatim>\<open>[xpart[d], xpart[d+1])\<close>; no column inside the partition enters it.
\<close>

theorem setup_exchange_ghost_sets:
  assumes "2 \<le> length (queue A)" "csr_ok n M" "part_ok (length (queue A)) n (part A)"
    and "part_ok (length (queue A)) m xpart" "length (exc A) = length (queue A)"
  shows "\<exists>rc A'. setup_exchange A xpart M = Inr (rc, A') \<and> length rc = length (queue A)
          \<and> (\<forall>d<length (queue A).
                set (rc ! d)
                = ghost_spec M (part A ! d) (part A ! (d + 1)) (xpart ! d) (xpart ! (d + 1))
                \<and> sorted_wrt (<) (rc ! d))"
proof -
  have xp: "sorted xpart" "length xpart = length (queue A) + 1"
    using assms(4) by (simp_all add: part_ok_def)
  from setup_exchange_fields[OF assms(1,2,3,5) xp] show ?thesis by blast
qed

theorem setup_exchange_ghost_sets_witness:
  "2 \<le> length (queue ex_A0) \<and> csr_ok 4 ex_M \<and> part_ok (length (queue ex_A0)) 4 (part ex_A0)
   \<and> part_ok (length (queue ex_A0)) 4 [0, 2, 4] \<and> length (exc ex_A0) = length (queue ex_A0)
   \<and> (\<exists>rc A'. setup_exchange ex_A0 [0, 2, 4] ex_M = Inr (rc, A') \<and> length rc = length (queue ex_A0)
          \<and> (\<forall>d<length (queue ex_A0).
                set (rc ! d)
                = ghost_spec ex_M (part ex_A0 ! d) (part ex_A0 ! (d + 1)) ([0, 2, 4] ! d) ([0, 2, 4] ! (d + 1))
                \<and> sorted_wrt (<) (rc ! d)))"
proof -
  have h1: "2 \<le> length (queue ex_A0)" by code_simp
  have h2: "csr_ok 4 ex_M" by code_simp
  have h3: "part_ok (length (queue ex_A0)) 4 (part ex_A0)" by code_simp
  have h4: "part_ok (length (queue ex_A0)) 4 [0, 2, 4]" by code_simp
  have h5: "length (exc ex_A0) = length (queue ex_A0)" by code_simp
  show ?thesis
    using h1 h2 h3 h4 h5 setup_exchange_ghost_sets[OF h1 h2 h3 h4 h5] by blast
qed

subsection \<open>C4: the send list and its ranges\<close>

text \<open>
  C4. On a well-formed input \<^verbatim>\<open>setup_exchange\<close> returns; the ghost set of every device
  is the set of the columns of its rows outside its column range, and the vector
  \<^verbatim>\<open>cols_to_send\<close> it builds is strictly increasing and holds exactly the union of
  these ghost sets. When it is not empty, that is when some row has a column
  outside the range of its device, \<^verbatim>\<open>cidx\<close> (found by \<^verbatim>\<open>lower_bound\<close> against the column partition) has
  one entry for each boundary, is non-decreasing, starts at \<open>0\<close>, ends at the length
  of the send list, and \<^verbatim>\<open>cidx[d] <= i < cidx[d+1]\<close> holds if and only if the
  \<open>i\<close>-th column of the send list lies in \<^verbatim>\<open>[xpart[d], xpart[d+1])\<close>: the ranges of
  the devices are disjoint and cover the send list.
\<close>

theorem setup_exchange_send_list:
  assumes "2 \<le> length (queue A)" "csr_ok n M" "cols_ok m M"
    and "part_ok (length (queue A)) n (part A)" "part_ok (length (queue A)) m xpart"
    and "length (exc A) = length (queue A)"
  shows "\<exists>rc A'. setup_exchange A xpart M = Inr (rc, A')
          \<and> length rc = length (queue A)
          \<and> (\<forall>d<length (queue A).
                set (rc ! d)
                = ghost_spec M (part A ! d) (part A ! (d + 1)) (xpart ! d) (xpart ! (d + 1)))
          \<and> sorted_wrt (<) (send_list rc)
          \<and> set (send_list rc) = (\<Union>d<length (queue A). set (rc ! d))
          \<and> (send_list rc \<noteq> [] \<longrightarrow>
               length (cidx A') = length (queue A) + 1 \<and> sorted (cidx A')
               \<and> cidx A' ! 0 = 0 \<and> cidx A' ! length (queue A) = length (send_list rc)
               \<and> (\<forall>d<length (queue A). \<forall>i<length (send_list rc).
                     (cidx A' ! d \<le> i \<and> i < cidx A' ! (d + 1))
                     \<longleftrightarrow> (xpart ! d \<le> send_list rc ! i \<and> send_list rc ! i < xpart ! (d + 1))))"
proof -
  let ?D = "length (queue A)"
  have xp: "sorted xpart" "length xpart = ?D + 1" "xpart ! 0 = 0" "xpart ! ?D = m"
    using assms(5) by (simp_all add: part_ok_def)
  from setup_exchange_fields[OF assms(1,2,4,6) xp(1,2)] obtain rc A' where
    se: "setup_exchange A xpart M = Inr (rc, A')"
    and A': "send_list rc \<noteq> [] \<longrightarrow> cidx A' = build_cidx (send_list rc) xpart ?D"
    and rc: "length rc = ?D"
      "\<forall>d<?D. set (rc ! d) = ghost_spec M (part A ! d) (part A ! (d + 1)) (xpart ! d) (xpart ! (d + 1))
               \<and> sorted_wrt (<) (rc ! d)"
    by blast
  let ?cols = "send_list rc"
  let ?ci = "build_cidx ?cols xpart ?D"
  have sc: "sorted_wrt (<) ?cols" by (rule send_list_sorted)
  have "set rc = (\<lambda>d. rc ! d) ` {..<?D}"
    using nth_image[of "length rc" rc] rc(1) by (simp add: atLeast0LessThan)
  then have un: "set ?cols = (\<Union>d<?D. set (rc ! d))"
    by (simp add: send_list_set)
  have ci: "length ?ci = ?D + 1" "\<And>d. d \<le> ?D \<Longrightarrow> lb_pos ?cols (xpart ! d) (?ci ! d)"
    using build_cidx_ok[OF strict_sorted_imp_sorted[OF sc] xp(1,2)] by blast+
  have below: "c < m" if "c \<in> set ?cols" for c
  proof -
    from that un obtain d where d: "d < ?D" "c \<in> set (rc ! d)" by auto
    have "part A ! (d + 1) \<le> n"
      using part_ok_nth_le(2)[OF assms(4), of "d + 1" "d + 1"] d(1) by simp
    from ghost_spec_cols[OF assms(2) this] d rc(2) have "c \<in> set (col M)" by blast
    with assms(3) show ?thesis by (simp add: cols_ok_def list_all_iff)
  qed
  have iff: "(?ci ! d \<le> i \<and> i < ?ci ! (d + 1))
        \<longleftrightarrow> (xpart ! d \<le> ?cols ! i \<and> ?cols ! i < xpart ! (d + 1))"
    if "d < ?D" "i < length ?cols" for d i
    using ci(2)[of d] ci(2)[of "d + 1"] that unfolding lb_pos_def
    by (metis Suc_eq_plus1 Suc_leI less_imp_le_nat not_le)
  have srt: "sorted ?ci"
  proof (subst sorted_iff_nth_Suc, intro allI impI)
    fix d assume "Suc d < length ?ci"
    then have d: "d < ?D" using ci(1) by simp
    have "xpart ! d \<le> xpart ! (d + 1)"
      by (rule sorted_nth_mono) (use xp d in auto)
    moreover have "lb_pos ?cols (xpart ! d) (?ci ! d)" "lb_pos ?cols (xpart ! (d + 1)) (?ci ! (d + 1))"
      using ci(2)[of d] ci(2)[of "d + 1"] d by simp_all
    ultimately have "?ci ! d \<le> ?ci ! (d + 1)" using lb_pos_mono by blast
    then show "?ci ! d \<le> ?ci ! Suc d" by simp
  qed
  have zero: "?ci ! 0 = 0" if "?cols \<noteq> []"
  proof (rule ccontr)
    assume "?ci ! 0 \<noteq> 0"
    then have "0 < ?ci ! 0" by simp
    moreover have "0 < length ?cols" using that by simp
    ultimately have "?cols ! 0 < xpart ! 0"
      using ci(2)[of 0] unfolding lb_pos_def by blast
    then show False using xp(3) by simp
  qed
  have top: "?ci ! ?D = length ?cols"
  proof (rule ccontr)
    assume ne: "?ci ! ?D \<noteq> length ?cols"
    have le: "?ci ! ?D \<le> length ?cols" using ci(2)[of ?D] by (simp add: lb_pos_def)
    with ne have lt: "?ci ! ?D < length ?cols" by simp
    then have "?cols ! (?ci ! ?D) < m" using below by simp
    with lt have "?ci ! ?D < ?ci ! ?D"
      using ci(2)[of ?D] xp(4) unfolding lb_pos_def by blast
    then show False by simp
  qed
  have gs: "\<forall>d<?D. set (rc ! d)
                = ghost_spec M (part A ! d) (part A ! (d + 1)) (xpart ! d) (xpart ! (d + 1))"
    using rc(2) by blast
  show ?thesis
    using se rc(1) gs sc un A' ci(1) srt zero top iff by (intro exI[of _ rc] exI[of _ A']) simp
qed

theorem setup_exchange_send_list_witness:
  "2 \<le> length (queue ex_A0) \<and> csr_ok 4 ex_M \<and> cols_ok 4 ex_M
   \<and> part_ok (length (queue ex_A0)) 4 (part ex_A0)
   \<and> part_ok (length (queue ex_A0)) 4 [0, 2, 4] \<and> length (exc ex_A0) = length (queue ex_A0)
   \<and> (\<exists>rc A'. setup_exchange ex_A0 [0, 2, 4] ex_M = Inr (rc, A')
          \<and> length rc = length (queue ex_A0)
          \<and> (\<forall>d<length (queue ex_A0).
                set (rc ! d)
                = ghost_spec ex_M (part ex_A0 ! d) (part ex_A0 ! (d + 1))
                    ([0, 2, 4] ! d) ([0, 2, 4] ! (d + 1)))
          \<and> sorted_wrt (<) (send_list rc)
          \<and> set (send_list rc) = (\<Union>d<length (queue ex_A0). set (rc ! d))
          \<and> (send_list rc \<noteq> [] \<longrightarrow>
               length (cidx A') = length (queue ex_A0) + 1 \<and> sorted (cidx A')
               \<and> cidx A' ! 0 = 0 \<and> cidx A' ! length (queue ex_A0) = length (send_list rc)
               \<and> (\<forall>d<length (queue ex_A0). \<forall>i<length (send_list rc).
                     (cidx A' ! d \<le> i \<and> i < cidx A' ! (d + 1))
                     \<longleftrightarrow> ([0, 2, 4] ! d \<le> send_list rc ! i \<and> send_list rc ! i < [0, 2, 4] ! (d + 1)))))"
proof -
  have h1: "2 \<le> length (queue ex_A0)" by code_simp
  have h2: "csr_ok 4 ex_M" by code_simp
  have hc: "cols_ok 4 ex_M" by code_simp
  have h3: "part_ok (length (queue ex_A0)) 4 (part ex_A0)" by code_simp
  have h4: "part_ok (length (queue ex_A0)) 4 [0, 2, 4]" by code_simp
  have h5: "length (exc ex_A0) = length (queue ex_A0)" by code_simp
  show ?thesis
    using h1 h2 hc h3 h4 h5 setup_exchange_send_list[OF h1 h2 hc h3 h4 h5] by blast
qed

subsection \<open>C5: the positions to receive from\<close>

text \<open>
  C5. On a well-formed input \<^verbatim>\<open>setup_exchange\<close> returns, and the ghost set of every
  device is the set of the columns of its rows outside its column range. For every
  device \<open>d\<close> with a non-empty ghost set and every
  \<open>j\<close> below the number of its ghost columns, \<^verbatim>\<open>exc[d].cols_to_recv[j]\<close> is the
  position in the send list of the \<open>j\<close>-th smallest ghost column of \<open>d\<close>, the
  column to which the renumbering map \<^verbatim>\<open>r2l\<close> of the remote block gives the index
  \<open>j\<close>; so the redistribution \<^verbatim>\<open>vals_to_recv[j] = rx[cols_to_recv[j]]\<close> of every
  multiplication puts each fetched value at the index of its column.
\<close>

theorem setup_exchange_cols_to_recv:
  assumes "2 \<le> length (queue A)" "csr_ok n M" "part_ok (length (queue A)) n (part A)"
    and "part_ok (length (queue A)) m xpart" "length (exc A) = length (queue A)"
  shows "\<exists>rc A'. setup_exchange A xpart M = Inr (rc, A')
          \<and> length rc = length (queue A)
          \<and> (\<forall>d<length (queue A).
                set (rc ! d)
                = ghost_spec M (part A ! d) (part A ! (d + 1)) (xpart ! d) (xpart ! (d + 1)))
          \<and> (\<forall>d<length (queue A). rc ! d \<noteq> [] \<longrightarrow>
                sorted_wrt (<) (rc ! d)
                \<and> length (cols_to_recv (exc A' ! d)) = length (rc ! d)
                \<and> (\<forall>j<length (rc ! d).
                      cols_to_recv (exc A' ! d) ! j < length (send_list rc)
                      \<and> send_list rc ! (cols_to_recv (exc A' ! d) ! j) = rc ! d ! j
                      \<and> map_of (r2l_of (rc ! d)) (rc ! d ! j) = Some j)
                \<and> (\<forall>rxs. length rxs = length (send_list rc) \<longrightarrow>
                      redistribute (cols_to_recv (exc A' ! d)) rxs (vals_to_recv (exc A' ! d))
                      = Inr (map (\<lambda>j. rxs ! (cols_to_recv (exc A' ! d) ! j))
                               [0..<length (rc ! d)])))"
proof -
  let ?D = "length (queue A)"
  have xp: "sorted xpart" "length xpart = ?D + 1"
    using assms(4) by (simp_all add: part_ok_def)
  from setup_exchange_fields[OF assms(1,2,3,5) xp] obtain rc A' where
    all: "setup_exchange A xpart M = Inr (rc, A') \<and> length rc = length (queue A)
          \<and> (\<forall>d<length (queue A).
                set (rc ! d)
                = ghost_spec M (part A ! d) (part A ! (d + 1)) (xpart ! d) (xpart ! (d + 1))
                \<and> sorted_wrt (<) (rc ! d))
          \<and> (send_list rc = [] \<longrightarrow> A' = A)
          \<and> (send_list rc \<noteq> [] \<longrightarrow>
                cidx A' = build_cidx (send_list rc) xpart (length (queue A))
                \<and> rx A' = replicate (length (send_list rc)) 0
                \<and> queue A' = queue A \<and> part A' = part A \<and> mtx A' = mtx A
                \<and> length (exc A') = length (queue A)
                \<and> (\<forall>d<length (queue A).
                      exc A' ! d = sent (send_list rc)
                                     (build_cidx (send_list rc) xpart (length (queue A))) xpart d
                                     (recvd (send_list rc) (rc ! d) (exc A ! d))))"
    by blast
  have se: "setup_exchange A xpart M = Inr (rc, A')"
    and rc: "length rc = ?D" "\<forall>d<?D. sorted_wrt (<) (rc ! d)"
    and A': "send_list rc \<noteq> [] \<longrightarrow>
              (\<forall>d<?D. exc A' ! d = sent (send_list rc) (build_cidx (send_list rc) xpart ?D) xpart d
                                     (recvd (send_list rc) (rc ! d) (exc A ! d)))"
    using all by simp_all
  let ?cols = "send_list rc"
  have sc: "sorted_wrt (<) ?cols" by (rule send_list_sorted)
  have main: "sorted_wrt (<) (rc ! d)
                \<and> length (cols_to_recv (exc A' ! d)) = length (rc ! d)
                \<and> (\<forall>j<length (rc ! d).
                      cols_to_recv (exc A' ! d) ! j < length ?cols
                      \<and> ?cols ! (cols_to_recv (exc A' ! d) ! j) = rc ! d ! j
                      \<and> map_of (r2l_of (rc ! d)) (rc ! d ! j) = Some j)
                \<and> (\<forall>rxs. length rxs = length ?cols \<longrightarrow>
                      redistribute (cols_to_recv (exc A' ! d)) rxs (vals_to_recv (exc A' ! d))
                      = Inr (map (\<lambda>j. rxs ! (cols_to_recv (exc A' ! d) ! j))
                               [0..<length (rc ! d)]))"
    if d: "d < ?D" and ne: "rc ! d \<noteq> []" for d
  proof -
    let ?s = "rc ! d"
    let ?recv = "filter (\<lambda>i. ?cols ! i \<in> set ?s) [0..<length ?cols]"
    have ss: "sorted_wrt (<) ?s" using rc(2) d by blast
    have "?s \<in> set rc" using d rc(1) by simp
    then have sub: "set ?s \<subseteq> set ?cols" by (auto simp: send_list_set)
    with ne have "?cols \<noteq> []" by auto
    with A' d have "exc A' ! d = sent ?cols (build_cidx ?cols xpart ?D) xpart d
                                   (recvd ?cols ?s (exc A ! d))" by blast
    then have recv: "cols_to_recv (exc A' ! d) = ?recv"
      and vals: "vals_to_recv (exc A' ! d) = replicate (length ?s) 0"
      using ne by (simp_all add: recvd_def)
    have len: "length ?recv = length ?s"
      by (rule positions_count[OF sc ss sub])
    have elems: "map (\<lambda>i. ?cols ! i) ?recv = ?s"
      unfolding positions_filter by (rule sorted_distinct_filter_eq[OF sc ss sub])
    have inr: "\<forall>p\<in>set ?recv. p < length ?cols" by simp
    have nth: "?recv ! j < length ?cols \<and> ?cols ! (?recv ! j) = ?s ! j
               \<and> map_of (r2l_of ?s) (?s ! j) = Some j" if j: "j < length ?s" for j
    proof -
      have "j < length ?recv" using j len by simp
      then have "?recv ! j \<in> set ?recv" by (rule nth_mem)
      then have "?recv ! j < length ?cols" using inr by blast
      moreover have "?cols ! (?recv ! j) = map (\<lambda>i. ?cols ! i) ?recv ! j"
        using j len by simp
      then have "?cols ! (?recv ! j) = ?s ! j" unfolding elems .
      moreover have "map_of (r2l_of ?s) (?s ! j) = Some j"
        by (rule r2l_of_nth[OF ss j])
      ultimately show ?thesis by blast
    qed
    have red: "redistribute ?recv rxs (replicate (length ?s) 0)
               = Inr (map (\<lambda>j. rxs ! (?recv ! j)) [0..<length ?s])"
      if "length rxs = length ?cols" for rxs :: "'a list"
    proof -
      have a: "\<forall>p\<in>set ?recv. p < length rxs" unfolding that by (rule inr)
      have b: "length (replicate (length ?s) (0::'a)) = length ?recv" unfolding len by simp
      show ?thesis using redistribute_ok[OF a b] unfolding len .
    qed
    show ?thesis
      unfolding recv vals
    proof (intro conjI allI impI)
      show "sorted_wrt (<) ?s" by (rule ss)
      show "length ?recv = length ?s" by (rule len)
      show "?recv ! j < length ?cols" if "j < length ?s" for j using nth[OF that] by blast
      show "?cols ! (?recv ! j) = ?s ! j" if "j < length ?s" for j using nth[OF that] by blast
      show "map_of (r2l_of ?s) (?s ! j) = Some j" if "j < length ?s" for j
        using nth[OF that] by blast
      show "redistribute ?recv rxs (replicate (length ?s) 0)
            = Inr (map (\<lambda>j. rxs ! (?recv ! j)) [0..<length ?s])"
        if "length rxs = length ?cols" for rxs :: "'a list"
        by (rule red[OF that])
    qed
  qed
  have gs: "\<forall>d<?D. set (rc ! d)
                = ghost_spec M (part A ! d) (part A ! (d + 1)) (xpart ! d) (xpart ! (d + 1))"
    using all by blast
  have recv: "\<forall>d<?D. rc ! d \<noteq> [] \<longrightarrow>
                sorted_wrt (<) (rc ! d)
                \<and> length (cols_to_recv (exc A' ! d)) = length (rc ! d)
                \<and> (\<forall>j<length (rc ! d).
                      cols_to_recv (exc A' ! d) ! j < length (send_list rc)
                      \<and> send_list rc ! (cols_to_recv (exc A' ! d) ! j) = rc ! d ! j
                      \<and> map_of (r2l_of (rc ! d)) (rc ! d ! j) = Some j)
                \<and> (\<forall>rxs :: 'a list. length rxs = length (send_list rc) \<longrightarrow>
                      redistribute (cols_to_recv (exc A' ! d)) rxs (vals_to_recv (exc A' ! d))
                      = Inr (map (\<lambda>j. rxs ! (cols_to_recv (exc A' ! d) ! j))
                               [0..<length (rc ! d)]))"
    using main by blast
  from se rc(1) gs recv show ?thesis by blast
qed

theorem setup_exchange_cols_to_recv_witness:
  "2 \<le> length (queue ex_A0) \<and> csr_ok 4 ex_M \<and> part_ok (length (queue ex_A0)) 4 (part ex_A0)
   \<and> part_ok (length (queue ex_A0)) 4 [0, 2, 4] \<and> length (exc ex_A0) = length (queue ex_A0)
   \<and> (\<exists>rc A'. setup_exchange ex_A0 [0, 2, 4] ex_M = Inr (rc, A')
          \<and> length rc = length (queue ex_A0)
          \<and> (\<forall>d<length (queue ex_A0).
                set (rc ! d)
                = ghost_spec ex_M (part ex_A0 ! d) (part ex_A0 ! (d + 1))
                    ([0, 2, 4] ! d) ([0, 2, 4] ! (d + 1)))
          \<and> (\<forall>d<length (queue ex_A0). rc ! d \<noteq> [] \<longrightarrow>
                sorted_wrt (<) (rc ! d)
                \<and> length (cols_to_recv (exc A' ! d)) = length (rc ! d)
                \<and> (\<forall>j<length (rc ! d).
                      cols_to_recv (exc A' ! d) ! j < length (send_list rc)
                      \<and> send_list rc ! (cols_to_recv (exc A' ! d) ! j) = rc ! d ! j
                      \<and> map_of (r2l_of (rc ! d)) (rc ! d ! j) = Some j)
                \<and> (\<forall>rxs. length rxs = length (send_list rc) \<longrightarrow>
                      redistribute (cols_to_recv (exc A' ! d)) rxs (vals_to_recv (exc A' ! d))
                      = Inr (map (\<lambda>j. rxs ! (cols_to_recv (exc A' ! d) ! j))
                               [0..<length (rc ! d)]))))"
proof -
  have h1: "2 \<le> length (queue ex_A0)" by code_simp
  have h2: "csr_ok 4 ex_M" by code_simp
  have h3: "part_ok (length (queue ex_A0)) 4 (part ex_A0)" by code_simp
  have h4: "part_ok (length (queue ex_A0)) 4 [0, 2, 4]" by code_simp
  have h5: "length (exc ex_A0) = length (queue ex_A0)" by code_simp
  show ?thesis
    using h1 h2 h3 h4 h5 setup_exchange_cols_to_recv[OF h1 h2 h3 h4 h5] by blast
qed

subsection \<open>C10: the columns to send are local indices\<close>

text \<open>
  C10. After the construction with at least two devices, for every device \<open>d\<close>
  with a non-empty range of the send list, every index in
  \<^verbatim>\<open>exc[d].cols_to_send\<close> is the column of the send list minus \<^verbatim>\<open>xpart[d]\<close> (the
  subtraction does not underflow) and lies below \<^verbatim>\<open>xpart[d+1] - xpart[d]\<close>, the
  size of the part of the input vector on device \<open>d\<close>, which is all the gather
  kernel reads.
\<close>

theorem setup_exchange_cols_to_send:
  assumes "2 \<le> length (queue A)" "csr_ok n M" "part_ok (length (queue A)) n (part A)"
    and "part_ok (length (queue A)) m xpart" "length (exc A) = length (queue A)"
  shows "\<exists>rc A'. setup_exchange A xpart M = Inr (rc, A')
          \<and> (send_list rc \<noteq> [] \<longrightarrow>
               (\<forall>d<length (queue A). cidx A' ! (d + 1) - cidx A' ! d \<noteq> 0 \<longrightarrow>
                  length (cols_to_send (exc A' ! d)) = cidx A' ! (d + 1) - cidx A' ! d
                  \<and> (\<forall>k<cidx A' ! (d + 1) - cidx A' ! d.
                        cols_to_send (exc A' ! d) ! k + xpart ! d = send_list rc ! (cidx A' ! d + k)
                        \<and> cols_to_send (exc A' ! d) ! k < xpart ! (d + 1) - xpart ! d)))"
proof -
  let ?D = "length (queue A)"
  have xp: "sorted xpart" "length xpart = ?D + 1"
    using assms(4) by (simp_all add: part_ok_def)
  from setup_exchange_fields[OF assms(1,2,3,5) xp] obtain rc A' where
    all: "setup_exchange A xpart M = Inr (rc, A') \<and> length rc = length (queue A)
          \<and> (\<forall>d<length (queue A).
                set (rc ! d)
                = ghost_spec M (part A ! d) (part A ! (d + 1)) (xpart ! d) (xpart ! (d + 1))
                \<and> sorted_wrt (<) (rc ! d))
          \<and> (send_list rc = [] \<longrightarrow> A' = A)
          \<and> (send_list rc \<noteq> [] \<longrightarrow>
                cidx A' = build_cidx (send_list rc) xpart (length (queue A))
                \<and> rx A' = replicate (length (send_list rc)) 0
                \<and> queue A' = queue A \<and> part A' = part A \<and> mtx A' = mtx A
                \<and> length (exc A') = length (queue A)
                \<and> (\<forall>d<length (queue A).
                      exc A' ! d = sent (send_list rc)
                                     (build_cidx (send_list rc) xpart (length (queue A))) xpart d
                                     (recvd (send_list rc) (rc ! d) (exc A ! d))))"
    by blast
  have se: "setup_exchange A xpart M = Inr (rc, A')"
    and A': "send_list rc \<noteq> [] \<longrightarrow>
              cidx A' = build_cidx (send_list rc) xpart ?D
              \<and> (\<forall>d<?D. exc A' ! d = sent (send_list rc) (build_cidx (send_list rc) xpart ?D) xpart d
                                     (recvd (send_list rc) (rc ! d) (exc A ! d)))"
    using all by simp_all
  let ?cols = "send_list rc"
  let ?ci = "build_cidx ?cols xpart ?D"
  have sc: "sorted ?cols" by (rule strict_sorted_imp_sorted[OF send_list_sorted])
  have ci: "\<And>d. d \<le> ?D \<Longrightarrow> lb_pos ?cols (xpart ! d) (?ci ! d)"
    using build_cidx_ok[OF sc xp] by blast
  have main: "length (cols_to_send (exc A' ! d)) = cidx A' ! (d + 1) - cidx A' ! d
              \<and> (\<forall>k<cidx A' ! (d + 1) - cidx A' ! d.
                    cols_to_send (exc A' ! d) ! k + xpart ! d = ?cols ! (cidx A' ! d + k)
                    \<and> cols_to_send (exc A' ! d) ! k < xpart ! (d + 1) - xpart ! d)"
    if ne: "?cols \<noteq> []" and d: "d < ?D" and nz: "cidx A' ! (d + 1) - cidx A' ! d \<noteq> 0" for d
  proof -
    have cA: "cidx A' = ?ci" using A' ne by blast
    have "exc A' ! d = sent ?cols ?ci xpart d (recvd ?cols (rc ! d) (exc A ! d))"
      using A' ne d by blast
    then have snd: "cols_to_send (exc A' ! d)
                    = map (\<lambda>i. ?cols ! i - xpart ! d) [?ci ! d..<?ci ! (d + 1)]"
      using nz unfolding cA by (simp add: sent_def)
    have lb: "lb_pos ?cols (xpart ! d) (?ci ! d)" "lb_pos ?cols (xpart ! (d + 1)) (?ci ! (d + 1))"
      using ci[of d] ci[of "d + 1"] d by simp_all
    have top: "?ci ! (d + 1) \<le> length ?cols" using lb(2) by (simp add: lb_pos_def)
    have elem: "(?cols ! (?ci ! d + k) - xpart ! d) + xpart ! d = ?cols ! (?ci ! d + k)
                \<and> ?cols ! (?ci ! d + k) - xpart ! d < xpart ! (d + 1) - xpart ! d"
      if k: "k < ?ci ! (d + 1) - ?ci ! d" for k
    proof -
      have i: "?ci ! d \<le> ?ci ! d + k" "?ci ! d + k < ?ci ! (d + 1)" using k by simp_all
      then have "?ci ! d + k < length ?cols" using top by simp
      from lb_pos_between[OF lb this] i
      have "xpart ! d \<le> ?cols ! (?ci ! d + k)" "?cols ! (?ci ! d + k) < xpart ! (d + 1)"
        by blast+
      then show ?thesis by simp
    qed
    show ?thesis
      unfolding snd cA using elem by simp
  qed
  show ?thesis
  proof (intro exI[of _ rc] exI[of _ A'] conjI allI impI)
    show "setup_exchange A xpart M = Inr (rc, A')" by (rule se)
  qed (use main in blast)+
qed

theorem setup_exchange_cols_to_send_witness:
  "2 \<le> length (queue ex_A0) \<and> csr_ok 4 ex_M \<and> part_ok (length (queue ex_A0)) 4 (part ex_A0)
   \<and> part_ok (length (queue ex_A0)) 4 [0, 2, 4] \<and> length (exc ex_A0) = length (queue ex_A0)
   \<and> (\<exists>rc A'. setup_exchange ex_A0 [0, 2, 4] ex_M = Inr (rc, A')
          \<and> (send_list rc \<noteq> [] \<longrightarrow>
               (\<forall>d<length (queue ex_A0). cidx A' ! (d + 1) - cidx A' ! d \<noteq> 0 \<longrightarrow>
                  length (cols_to_send (exc A' ! d)) = cidx A' ! (d + 1) - cidx A' ! d
                  \<and> (\<forall>k<cidx A' ! (d + 1) - cidx A' ! d.
                        cols_to_send (exc A' ! d) ! k + [0, 2, 4] ! d = send_list rc ! (cidx A' ! d + k)
                        \<and> cols_to_send (exc A' ! d) ! k < [0, 2, 4] ! (d + 1) - [0, 2, 4] ! d))))"
proof -
  have h1: "2 \<le> length (queue ex_A0)" by code_simp
  have h2: "csr_ok 4 ex_M" by code_simp
  have h3: "part_ok (length (queue ex_A0)) 4 (part ex_A0)" by code_simp
  have h4: "part_ok (length (queue ex_A0)) 4 [0, 2, 4]" by code_simp
  have h5: "length (exc ex_A0) = length (queue ex_A0)" by code_simp
  show ?thesis
    using h1 h2 h3 h4 h5 setup_exchange_cols_to_send[OF h1 h2 h3 h4 h5] by blast
qed

subsection \<open>The assertion of the renumbering pass\<close>

lemma foldM_never:
  assumes "\<And>i s. i \<in> set is \<Longrightarrow> I s \<Longrightarrow> f i s \<noteq> Inl e \<and> (\<forall>s'. f i s = Inr s' \<longrightarrow> I s')" "I s"
  shows "foldM f is s \<noteq> Inl e"
  using assms
proof (induction "is" arbitrary: s)
  case Nil
  show ?case by simp
next
  case (Cons i "is")
  show ?case
  proof (cases "f i s")
    case (Inl e')
    with Cons.prems(1)[of i s] Cons.prems(2) show ?thesis by auto
  next
    case (Inr s')
    with Cons.prems(1)[of i s] Cons.prems(2) have "I s'" by simp
    have "foldM f is s' \<noteq> Inl e"
    proof (rule Cons.IH)
      fix i' s assume "i' \<in> set is" "I s"
      then show "f i' s \<noteq> Inl e \<and> (\<forall>s'. f i' s = Inr s' \<longrightarrow> I s')"
        using Cons.prems(1)[of i' s] by simp
    next
      show "I s'" by fact
    qed
    with Inr show ?thesis by simp
  qed
qed

lemma rd_Inr: "rd xs i = Inr v \<Longrightarrow> i < length xs \<and> v = xs ! i"
  by (auto simp: rd_def split: if_splits)

lemma rbind_eq_Inr: "rbind m f = Inr v \<longleftrightarrow> (\<exists>u. m = Inr u \<and> f u = Inr v)"
  by (cases m) auto

lemma ghost_scan_Inr:
  assumes "foldM (ghost_step xb xe cs) js s = Inr s'"
  shows "set s \<subseteq> set s'
         \<and> (\<forall>j\<in>set js. j < length cs \<and> (\<not> (xb \<le> cs ! j \<and> cs ! j < xe) \<longrightarrow> cs ! j \<in> set s'))"
  using assms
proof (induction js arbitrary: s)
  case Nil
  then show ?case by simp
next
  case (Cons j js)
  from Cons.prems obtain s1 where s1: "ghost_step xb xe cs j s = Inr s1"
      "foldM (ghost_step xb xe cs) js s1 = Inr s'"
    by (auto simp: rbind_eq_Inr)
  from s1(1) have j: "j < length cs"
    and s1_eq: "s1 = (if cs ! j < xb \<or> xe \<le> cs ! j then set_insert (cs ! j) s else s)"
    by (auto simp: ghost_step_def rbind_eq_Inr dest: rd_Inr)
  from Cons.IH[OF s1(2)] have IH: "set s1 \<subseteq> set s'"
    "\<forall>j\<in>set js. j < length cs \<and> (\<not> (xb \<le> cs ! j \<and> cs ! j < xe) \<longrightarrow> cs ! j \<in> set s')"
    by blast+
  have "set s \<subseteq> set s1" "\<not> (xb \<le> cs ! j \<and> cs ! j < xe) \<longrightarrow> cs ! j \<in> set s1"
    by (auto simp: s1_eq)
  with IH j show ?case by auto
qed

lemma ghost_rows_Inr:
  assumes "foldM (ghost_row M xb xe) is s = Inr s'"
  shows "set s \<subseteq> set s'
         \<and> (\<forall>i\<in>set is. \<forall>j\<in>set [row M ! i..<row M ! (i + 1)].
               \<not> (xb \<le> col M ! j \<and> col M ! j < xe) \<longrightarrow> col M ! j \<in> set s')"
  using assms
proof (induction "is" arbitrary: s)
  case Nil
  then show ?case by simp
next
  case (Cons i "is")
  from Cons.prems obtain s1 where s1: "ghost_row M xb xe i s = Inr s1"
      "foldM (ghost_row M xb xe) is s1 = Inr s'"
    by (auto simp: rbind_eq_Inr)
  from s1(1) have scan: "foldM (ghost_step xb xe (col M)) [row M ! i..<row M ! (i + 1)] s = Inr s1"
    by (auto simp: ghost_row_def rbind_eq_Inr dest!: rd_Inr)
  from ghost_scan_Inr[OF scan] have a: "set s \<subseteq> set s1"
    "\<forall>j\<in>set [row M ! i..<row M ! (i + 1)].
        \<not> (xb \<le> col M ! j \<and> col M ! j < xe) \<longrightarrow> col M ! j \<in> set s1"
    by blast+
  from Cons.IH[OF s1(2)] have IH: "set s1 \<subseteq> set s'"
    "\<forall>i\<in>set is. \<forall>j\<in>set [row M ! i..<row M ! (i + 1)].
        \<not> (xb \<le> col M ! j \<and> col M ! j < xe) \<longrightarrow> col M ! j \<in> set s'"
    by blast+
  show ?case
  proof (intro conjI ballI impI)
    show "set s \<subseteq> set s'" using a(1) IH(1) by blast
    fix i' j assume i': "i' \<in> set (i # is)" and j: "j \<in> set [row M ! i'..<row M ! (i' + 1)]"
      and out: "\<not> (xb \<le> col M ! j \<and> col M ! j < xe)"
    show "col M ! j \<in> set s'"
    proof (cases "i' = i")
      case True
      with a(2) j out have "col M ! j \<in> set s1" by blast
      with IH(1) show ?thesis by blast
    next
      case False
      with i' have "i' \<in> set is" by simp
      with IH(2) j out show ?thesis by blast
    qed
  qed
qed

lemma r2l_keys: "fst ` set (fold (\<lambda>c r2l. AList.update c (length r2l) r2l) s r) = set s \<union> fst ` set r"
  by (induction s arbitrary: r) (auto simp: dom_update)

lemma r2l_of_defined: "c \<in> set s \<Longrightarrow> map_of (r2l_of s) c \<noteq> None"
  using r2l_keys[of s "[]"] by (simp add: r2l_of_def map_of_eq_None_iff)

lemma split_nz_no_assert:
  assumes "\<forall>j\<in>set js. \<not> (xb \<le> col M ! j \<and> col M ! j < xe) \<longrightarrow> map_of r2l (col M ! j) \<noteq> None"
  shows "foldM (split_nz xb xe r2l M) js s \<noteq> Inl AssertionFailed"
proof (rule foldM_never[where I = "\<lambda>_. True"])
  fix j and s :: "'a split_state"
  assume "j \<in> set js"
  with assms have "\<not> (xb \<le> col M ! j \<and> col M ! j < xe) \<longrightarrow> map_of r2l (col M ! j) \<noteq> None"
    by blast
  then show "split_nz xb xe r2l M j s \<noteq> Inl AssertionFailed
             \<and> (\<forall>s'. split_nz xb xe r2l M j s = Inr s' \<longrightarrow> True)"
    by (auto simp: split_nz_def rd_def rbind_def split: option.splits sum.splits)
qed simp

lemma split_row_no_assert:
  assumes "\<forall>i\<in>set is. \<forall>j\<in>set [row M ! i..<row M ! (i + 1)].
             \<not> (xb \<le> col M ! j \<and> col M ! j < xe) \<longrightarrow> map_of r2l (col M ! j) \<noteq> None"
  shows "foldM (split_row xb xe r2l M) is s \<noteq> Inl AssertionFailed"
proof (rule foldM_never[where I = "\<lambda>_. True"])
  fix i and s :: "'a split_state"
  assume "i \<in> set is"
  with assms have "\<forall>j\<in>set [row M ! i..<row M ! (i + 1)].
             \<not> (xb \<le> col M ! j \<and> col M ! j < xe) \<longrightarrow> map_of r2l (col M ! j) \<noteq> None"
    by blast
  from split_nz_no_assert[OF this, of s]
  show "split_row xb xe r2l M i s \<noteq> Inl AssertionFailed
        \<and> (\<forall>s'. split_row xb xe r2l M i s = Inr s' \<longrightarrow> True)"
    by (auto simp: split_row_def rd_def rbind_def split: sum.splits)
qed simp

lemma SpMatCSR_new_no_assert:
  assumes "beg \<noteq> 0 \<or> remote_cols \<noteq> [] \<Longrightarrow>
           \<forall>i\<in>set [beg..<en]. \<forall>j\<in>set [row M ! i..<row M ! (i + 1)].
             \<not> (xb \<le> col M ! j \<and> col M ! j < xe) \<longrightarrow> col M ! j \<in> set remote_cols"
  shows "SpMatCSR_new beg en xb xe M remote_cols \<noteq> Inl AssertionFailed"
proof (cases "beg = 0 \<and> remote_cols = []")
  case True
  then show ?thesis
    by (auto simp: SpMatCSR_new_def Let_def rd_def rd_range_def rbind_def split: sum.splits)
next
  case False
  then have "beg \<noteq> 0 \<or> remote_cols \<noteq> []" by simp
  from assms[OF this]
  have "\<forall>i\<in>set [beg..<en]. \<forall>j\<in>set [row M ! i..<row M ! (i + 1)].
             \<not> (xb \<le> col M ! j \<and> col M ! j < xe)
             \<longrightarrow> map_of (r2l_of remote_cols) (col M ! j) \<noteq> None"
    using r2l_of_defined[of _ remote_cols] by blast
  from split_row_no_assert[OF this] False
    reserve_buffers_no_assert[of beg en M remote_cols] show ?thesis
    by (auto simp: SpMatCSR_new_def Let_def rbind_def split: sum.splits)
qed

lemma foldM_each_Inr:
  assumes "foldM (\<lambda>d st. rbind (f d) (\<lambda>e. Inr (st[d := e]))) [0..<k] st0 = Inr st"
    and "length st0 = D" "k \<le> D"
  shows "length st = D \<and> (\<forall>d<k. f d = Inr (st ! d))"
  using assms(1,3)
proof (induction k arbitrary: st)
  case 0
  then show ?case using assms(2) by simp
next
  case (Suc k)
  from Suc.prems(1) obtain st1 e where
    st1: "foldM (\<lambda>d st. rbind (f d) (\<lambda>e. Inr (st[d := e]))) [0..<k] st0 = Inr st1"
    and e: "f k = Inr e" and st: "st = st1[k := e]"
    by (auto simp: foldM_append rbind_eq_Inr)
  from Suc.IH[OF st1] Suc.prems(2) have IH: "length st1 = D" "\<forall>d<k. f d = Inr (st1 ! d)"
    by simp_all
  have "\<forall>d<Suc k. f d = Inr (st ! d)"
    using IH e Suc.prems(2) unfolding st by (auto simp: nth_list_update less_Suc_eq)
  with IH(1) show ?case unfolding st by simp
qed

lemma ghost_set_no_assert: "ghost_set M prt xpart d \<noteq> Inl AssertionFailed"
  unfolding ghost_set_def
proof (rule foldM_never[where I = "\<lambda>_. True"])
  fix i and s :: "nat list"
  have "foldM (ghost_step (xpart ! d) (xpart ! (d + 1)) (col M)) js s \<noteq> Inl AssertionFailed" for js
    by (rule foldM_never[where I = "\<lambda>_. True"])
       (auto simp: ghost_step_def rd_def)
  then show "ghost_row M (xpart ! d) (xpart ! (d + 1)) i s \<noteq> Inl AssertionFailed
        \<and> (\<forall>s'. ghost_row M (xpart ! d) (xpart ! (d + 1)) i s = Inr s' \<longrightarrow> True)"
    by (auto simp: ghost_row_def rd_def)
qed simp

lemma ghost_sets_no_assert: "ghost_sets M prt xpart D \<noteq> Inl AssertionFailed"
  unfolding ghost_sets_def
proof (rule foldM_never[where I = "\<lambda>_. True"])
  fix d and rc :: "nat list list"
  show "rbind (ghost_set M prt xpart d) (\<lambda>s. Inr (rc[d := s])) \<noteq> Inl AssertionFailed
        \<and> (\<forall>s'. rbind (ghost_set M prt xpart d) (\<lambda>s. Inr (rc[d := s])) = Inr s' \<longrightarrow> True)"
    using ghost_set_no_assert[of M prt xpart d]
    by (cases "ghost_set M prt xpart d") auto
qed simp

lemma setup_recv_no_assert: "setup_recv cols s e \<noteq> Inl AssertionFailed"
proof -
  have "foldM (recv_step cols s) is st \<noteq> Inl AssertionFailed" for "is" st
    by (rule foldM_never[where I = "\<lambda>_. True"])
       (auto simp: recv_step_def wr_def split: prod.splits)
  from this[of "[0..<length cols]" "(replicate (length s) 0, 0)"] show ?thesis
    by (cases "foldM (recv_step cols s) [0..<length cols] (replicate (length s) 0, 0)")
       (auto simp: setup_recv_def Let_def)
qed

lemma setup_exchange_no_assert: "setup_exchange A xpart M \<noteq> Inl AssertionFailed"
proof -
  have recv: "foldM (\<lambda>d ex. rbind (setup_recv cols (rc ! d) (ex ! d)) (\<lambda>e. Inr (ex[d := e]))) ds ex0
        \<noteq> Inl AssertionFailed" for cols rc ds and ex0 :: "'a exdata list"
  proof (rule foldM_never[where I = "\<lambda>_. True"])
    fix d and ex :: "'a exdata list"
    show "rbind (setup_recv cols (rc ! d) (ex ! d)) (\<lambda>e. Inr (ex[d := e])) \<noteq> Inl AssertionFailed
        \<and> (\<forall>s'. rbind (setup_recv cols (rc ! d) (ex ! d)) (\<lambda>e. Inr (ex[d := e])) = Inr s' \<longrightarrow> True)"
      using setup_recv_no_assert[of cols "rc ! d" "ex ! d"]
      by (cases "setup_recv cols (rc ! d) (ex ! d)") auto
  qed simp
  show ?thesis
  proof (cases "ghost_sets M (part A) xpart (length (queue A))")
    case (Inl e)
    then show ?thesis
      using ghost_sets_no_assert[of M "part A" xpart "length (queue A)"]
      by (auto simp: setup_exchange_def Let_def)
  next
    case (Inr rc)
    show ?thesis
    proof (cases "foldM (\<lambda>d ex. rbind (setup_recv (send_list rc) (rc ! d) (ex ! d))
                      (\<lambda>e. Inr (ex[d := e]))) [0..<length (queue A)] (exc A)")
      case (Inl e)
      with Inr recv[of "send_list rc" rc "[0..<length (queue A)]" "exc A"] show ?thesis
        by (auto simp: setup_exchange_def Let_def)
    next
      case ex: (Inr ex)
      with Inr show ?thesis
        by (auto simp: setup_exchange_def Let_def split_beta)
    qed
  qed
qed

lemma setup_exchange_Inr:
  assumes "setup_exchange A xpart M = Inr (rc, A')"
  shows "part A' = part A \<and> queue A' = queue A
         \<and> (if length (queue A) \<le> 1 then rc = replicate (length (queue A)) []
            else ghost_sets M (part A) xpart (length (queue A)) = Inr rc)"
proof (cases "length (queue A) \<le> 1")
  case True
  with assms show ?thesis by (auto simp: setup_exchange_def Let_def)
next
  case False
  with assms obtain rc' where g: "ghost_sets M (part A) xpart (length (queue A)) = Inr rc'"
    by (cases "ghost_sets M (part A) xpart (length (queue A))")
       (auto simp: setup_exchange_def Let_def)
  show ?thesis
  proof (cases "send_list rc' = []")
    case True
    with assms False g show ?thesis by (simp add: setup_exchange_def Let_def)
  next
    case ne: False
    with assms False g obtain ex where
      "foldM (\<lambda>d ex. rbind (setup_recv (send_list rc') (rc' ! d) (ex ! d))
                      (\<lambda>e. Inr (ex[d := e]))) [0..<length (queue A)] (exc A) = Inr ex"
      by (cases "foldM (\<lambda>d ex. rbind (setup_recv (send_list rc') (rc' ! d) (ex ! d))
                      (\<lambda>e. Inr (ex[d := e]))) [0..<length (queue A)] (exc A)")
         (auto simp: setup_exchange_def Let_def)
    with assms False g ne show ?thesis
      by (auto simp: setup_exchange_def Let_def split_beta)
  qed
qed

subsection \<open>C9: malformed input is not detected\<close>

text \<open>
  C9 as stated fails: a column index outside \<open>[0, n_cols)\<close> and decreasing row
  offsets can both pass the construction, which returns a matrix. With two devices the
  bad column \<open>5\<close> of a matrix with one column goes through the renumbering pass:
  it is outside the columns of its device, so it is in the ghost set, and the
  assertion holds; on one device the fast path copies the arrays unchecked.
\<close>

theorem malformed_csr_accepted:
  "\<not> cols_ok 1 bad_col_M
   \<and> SpMat_new [dev0, dev0] [0, 1, 1] [0, 1, 1] 1 1 bad_col_M
       = Inr \<lparr>queue = [dev0, dev0], part = [0, 1, 1],
              mtx = [Some \<lparr>csr_n = 1, has_loc = False, has_rem = True, loc = no_buffers,
                            rem = \<lparr>row = [0, 1], col = [0], val = [7]\<rparr>\<rparr>, None],
              exc = [\<lparr>cols_to_recv = [0], vals_to_recv = [0], cols_to_send = [],
                      vals_to_send = [], exc_rx = [0]\<rparr>, no_exdata],
              cidx = [0, 0, 0], rx = [0], nrows = 1, ncols = 1, nnz = 1\<rparr>
   \<and> \<not> sorted (row bad_row_M)
   \<and> SpMat_new [dev0] [0, 2] [0, 1] 2 1 bad_row_M
       = Inr \<lparr>queue = [dev0], part = [0, 2],
              mtx = [Some \<lparr>csr_n = 2, has_loc = True, has_rem = False,
                            loc = \<lparr>row = [0, 2, 1], col = [0], val = [1]\<rparr>,
                            rem = no_buffers\<rparr>],
              exc = [no_exdata], cidx = [], rx = [], nrows = 2, ncols = 1, nnz = 1\<rparr>"
  by code_simp

text \<open>
  C9 as amended. The assertion of the local/remote split only checks that a column
  outside the columns of the device is in the ghost set handed to the constructor.
  With the ghost sets of \<^verbatim>\<open>setup_exchange\<close> and row boundaries as the partitioner
  returns them it never fires, for any construction input, well-formed or
  malformed: the construction of \<^verbatim>\<open>SpMat\<close> never ends in a failed assertion, so
  malformed CSR input is not detected by that check.
\<close>

theorem SpMat_new_never_asserts:
  assumes "part_ok (length q) n prt"
  shows "SpMat_new q prt xpart n m M \<noteq> Inl AssertionFailed"
proof (cases "rd (row M) n")
  case (Inl e)
  then show ?thesis by (auto simp: SpMat_new_def rd_def split: if_splits)
next
  case (Inr row_n)
  let ?A0 = "SpMat_init q prt n m row_n :: 'a SpMat"
  have A0: "part ?A0 = prt" "queue ?A0 = q" by (simp_all add: SpMat_init_def)
  show ?thesis
  proof (cases "setup_exchange ?A0 xpart M")
    case (Inl e)
    with Inr setup_exchange_no_assert[of ?A0 xpart M] show ?thesis
      by (auto simp: SpMat_new_def)
  next
    case se: (Inr r)
    obtain rc A1 where r: "r = (rc, A1)" by (cases r)
    from setup_exchange_Inr[OF se[unfolded r], unfolded A0]
    have A1: "part A1 = prt"
      and rcs: "if length q \<le> 1 then rc = replicate (length q) []
                else ghost_sets M prt xpart (length q) = Inr rc"
      by simp_all
    have strips: "foldM (make_strip xpart M rc) [0..<length q] A1 \<noteq> Inl AssertionFailed"
    proof (rule foldM_never[where I = "\<lambda>A. part A = prt"])
      fix d and A :: "'a SpMat"
      assume d: "d \<in> set [0..<length q]" and pA: "part A = prt"
      have "SpMatCSR_new (prt ! d) (prt ! (d + 1)) (xpart ! d) (xpart ! (d + 1)) M (rc ! d)
            \<noteq> Inl AssertionFailed"
      proof (rule SpMatCSR_new_no_assert)
        assume gen: "prt ! d \<noteq> 0 \<or> rc ! d \<noteq> []"
        have two: "\<not> length q \<le> 1"
        proof
          assume le: "length q \<le> 1"
          with d have "d = 0" "rc = replicate (length q) []" using rcs by auto
          with d gen assms show False by (simp add: part_ok_def)
        qed
        with rcs have "ghost_sets M prt xpart (length q) = Inr rc" by simp
        from foldM_each_Inr[OF this[unfolded ghost_sets_def], of "length q"] d
        have "ghost_set M prt xpart d = Inr (rc ! d)" by simp
        from ghost_rows_Inr[OF this[unfolded ghost_set_def]]
        show "\<forall>i\<in>set [prt ! d..<prt ! (d + 1)]. \<forall>j\<in>set [row M ! i..<row M ! (i + 1)].
                \<not> (xpart ! d \<le> col M ! j \<and> col M ! j < xpart ! (d + 1))
                \<longrightarrow> col M ! j \<in> set (rc ! d)"
          by blast
      qed
      with pA show "make_strip xpart M rc d A \<noteq> Inl AssertionFailed
            \<and> (\<forall>s'. make_strip xpart M rc d A = Inr s' \<longrightarrow> part s' = prt)"
        by (cases "SpMatCSR_new (prt ! d) (prt ! (d + 1)) (xpart ! d) (xpart ! (d + 1)) M (rc ! d)")
           (auto simp: make_strip_def)
    qed (rule A1)
    with Inr se r show ?thesis by (simp add: SpMat_new_def)
  qed
qed

theorem SpMat_new_never_asserts_witness:
  "part_ok (length [dev0, dev0]) 1 [0, 1, 1]
   \<and> SpMat_new [dev0, dev0] [0, 1, 1] [0, 1, 1] 1 1 bad_col_M \<noteq> Inl AssertionFailed"
proof -
  have h: "part_ok (length [dev0, dev0]) 1 [0, 1, 1]" by code_simp
  show ?thesis
    using h SpMat_new_never_asserts[OF h, of "[0, 1, 1]" 1 bad_col_M] by blast
qed

text \<open>Where malformed input does stop the construction, it is not in the assertion.
  On two devices the decreasing row offsets of \<open>bad_row_M\<close> reach the renumbering
  pass of device 1, which asks \<^verbatim>\<open>reserve\<close> for \<^verbatim>\<open>row[2] - row[1]\<close> elements, \<open>1 - 2\<close>
  modulo \<open>2 ^ 64\<close>, and \<^verbatim>\<open>reserve\<close> throws.\<close>

lemma decreasing_rows_length_error:
  "SpMat_new [dev0, dev0] [0, 1, 2] [0, 1, 2] 2 2 bad_row_M = Inl LengthError"
  by code_simp

subsection \<open>The flags of a constructed store, and a single device\<close>

lemma foldM_invariant:
  assumes "foldM f is s = Inr s'" "I s" "\<And>i s s'. i \<in> set is \<Longrightarrow> f i s = Inr s' \<Longrightarrow> I s'"
  shows "I s'"
  using assms
proof (induction "is" arbitrary: s)
  case Nil
  then show ?case by simp
next
  case (Cons i "is")
  from Cons.prems(1) obtain s1 where s1: "f i s = Inr s1" "foldM f is s1 = Inr s'"
    by (auto simp: rbind_eq_Inr)
  have "I s1" using Cons.prems(3)[of i s s1] s1(1) by simp
  show ?case
  proof (rule Cons.IH[OF s1(2) \<open>I s1\<close>])
    fix i' t t' assume "i' \<in> set is" "f i' t = Inr t'"
    then show "I t'" using Cons.prems(3)[of i' t t'] by simp
  qed
qed

text \<open>The flag \<open>has_loc\<close> of a constructed store says that its local block holds a
  nonzero.\<close>

lemma SpMatCSR_new_has_loc:
  assumes "SpMatCSR_new beg en xb xe M remote_cols = Inr S"
  shows "has_loc S \<longleftrightarrow> col (loc S) \<noteq> []"
proof (cases "beg = 0 \<and> remote_cols = []")
  case True
  with assms show ?thesis
    by (auto simp: SpMatCSR_new_def Let_def rbind_eq_Inr rd_range_def no_buffers_def
             split: if_splits dest!: rd_Inr)
next
  case False
  let ?s0 = "\<lparr>lrow = [0], lcol = [], lval = [],
              rrow = (if remote_cols \<noteq> [] then [0] else []), rcol = [], rval = []\<rparr> :: 'a split_state"
  from assms False obtain s where
    s: "foldM (split_row xb xe (r2l_of remote_cols) M) [beg..<en] ?s0 = Inr s"
    and S: "S = \<lparr>csr_n = en - beg, has_loc = (last (lrow s) \<noteq> 0), has_rem = (remote_cols \<noteq> []),
                 loc = (if last (lrow s) \<noteq> 0
                        then \<lparr>row = lrow s, col = lcol s, val = lval s\<rparr> else no_buffers),
                 rem = (if remote_cols \<noteq> []
                        then \<lparr>row = rrow s, col = rcol s, val = rval s\<rparr> else no_buffers)\<rparr>"
    by (auto simp: SpMatCSR_new_def Let_def rbind_eq_Inr)
  have "last (lrow s) = length (lcol s)"
  proof (rule foldM_invariant[OF s, where I = "\<lambda>s. last (lrow s) = length (lcol s)"])
    show "last (lrow ?s0) = length (lcol ?s0)" by simp
  next
    fix i and t t' :: "'a split_state"
    assume "split_row xb xe (r2l_of remote_cols) M i t = Inr t'"
    then show "last (lrow t') = length (lcol t')"
      by (auto simp: split_row_def rbind_eq_Inr)
  qed
  then show ?thesis unfolding S by (simp add: no_buffers_def)
qed


text \<open>With one device the planner returns at once: the only ghost set is empty and
  nothing is allocated; the constructor then builds one store, and a multiplication
  is the call of \<^verbatim>\<open>mul_local\<close> on it.\<close>

lemma setup_exchange_single:
  assumes "length (queue A) = 1"
  shows "setup_exchange A xpart M = Inr ([[]], A)"
  using assms by (simp add: setup_exchange_def)

lemma mul_single:
  assumes "length (queue A) = 1" "rx A = []"
  shows "mul A x y alpha app = rbind (local_dev A x alpha app 0 y) (\<lambda>y'. Inr (A, y'))"
  using assms by (cases "local_dev A x alpha app 0 y") (simp_all add: mul_def)

lemma SpMat_new_single:
  "SpMat_new [dev] prt xpart n m M =
     rbind (rd (row M) n) (\<lambda>row_n. make_strip xpart M [[]] 0 (SpMat_init [dev] prt n m row_n))"
proof (cases "rd (row M) n")
  case (Inl e)
  then show ?thesis by (simp add: SpMat_new_def)
next
  case (Inr row_n)
  have "setup_exchange (SpMat_init [dev] prt n m row_n :: 'a SpMat) xpart M
        = Inr ([[]], SpMat_init [dev] prt n m row_n)"
    by (rule setup_exchange_single) (simp add: SpMat_init_def)
  with Inr show ?thesis
    by (cases "make_strip xpart M [[]] 0 (SpMat_init [dev] prt n m row_n :: 'a SpMat)")
       (simp_all add: SpMat_new_def)
qed

subsection \<open>C1, C2, C8: the fast path of the constructor on a later device\<close>

text \<open>
  The constructor of \<^verbatim>\<open>SpMatCSR\<close> takes its fast path, which uploads the arrays as
  they are, when the rows of the device start at \<open>0\<close> and its ghost set is empty.
  The first device with a row is not always device \<open>0\<close>: with one row and 48
  columns split as \<open>[0, 0, 1]\<close> and \<open>[0, 16, 48]\<close>, device \<open>1\<close> owns row \<open>0\<close> and
  the columns from \<open>16\<close> on. Its columns are then not renumbered relative to
  \<^verbatim>\<open>xbeg\<close>, while its part of the input vector starts at column \<open>16\<close>.

  C1 at this input: the input is well-formed, the product computed on the two
  devices is \<open>5 * x[36] = 180\<close>, the dense reference is \<open>5 * x[20] = 100\<close>.
\<close>

theorem mul_differs_from_reference:
  "csr_ok 1 bug_M \<and> cols_ok 48 bug_M \<and> part_ok 2 1 [0, 0, 1] \<and> part_ok 2 48 [0, 16, 48]
   \<and> construct_and_mul [dev0, dev0] [0, 0, 1] [0, 16, 48] 1 48 bug_M bug_x [0] 1 False
       = Inr [180]
   \<and> dense_spmv bug_M 1 bug_x [0] 1 False = [100]"
  by code_simp

text \<open>
  C2 at this input: the nonzero of device \<open>1\<close> is in column \<open>20\<close>, inside the
  columns \<open>16..<48\<close> of the device; the local block keeps column \<open>20\<close> where the
  renumbering pass stores \<open>col - xbeg = 4\<close>. The renumbering pass does so on the
  matrix \<open>ex_M\<close>: the local columns \<open>2\<close> and \<open>3\<close> of its second device are stored
  as \<open>0\<close> and \<open>1\<close>.
\<close>

theorem fast_path_keeps_global_columns:
  "rbind (SpMat_new [dev0, dev0] [0, 0, 1] [0, 16, 48] 1 48 bug_M) (\<lambda>A. Inr (mtx A))
     = Inr [None, Some \<lparr>csr_n = 1, has_loc = True, has_rem = False,
                         loc = \<lparr>row = [0, 1], col = [20], val = [5]\<rparr>, rem = no_buffers\<rparr>]
   \<and> [0, 16, 48] ! 1 \<le> col bug_M ! 0 \<and> col bug_M ! 0 < [0, 16, 48] ! 2
   \<and> col bug_M ! 0 - [0, 16, 48] ! 1 = (4::nat)
   \<and> rbind (SpMat_new [dev0, dev0] [0, 2, 4] [0, 2, 4] 4 4 ex_M)
         (\<lambda>A. Inr (map (map_option (\<lambda>S. col (loc S))) (mtx A)))
     = Inr [Some [0, 1], Some [0, 1]]"
  by code_simp

text \<open>
  C8 at this input: one device computes \<open>100\<close>, two devices compute \<open>180\<close> for the
  same matrix and vector.
\<close>

theorem single_and_two_devices_differ:
  "construct_and_mul [dev0] [0, 1] [0, 48] 1 48 bug_M bug_x [0] 1 False = Inr [100]
   \<and> construct_and_mul [dev0, dev0] [0, 0, 1] [0, 16, 48] 1 48 bug_M bug_x [0] 1 False
       = Inr [180]"
  by code_simp

subsection \<open>The blocks of a constructed store\<close>

lemma split_nz_fold:
  assumes "\<forall>j\<in>set js. j < length (col M) \<and> j < length (val M)"
    and "\<forall>j\<in>set js. \<not> (xb \<le> col M ! j \<and> col M ! j < xe) \<longrightarrow> map_of r2l (col M ! j) \<noteq> None"
  shows "foldM (split_nz xb xe r2l M) js s =
         Inr (s\<lparr>lcol := lcol s @ map (\<lambda>j. col M ! j - xb)
                                  (filter (\<lambda>j. xb \<le> col M ! j \<and> col M ! j < xe) js),
                lval := lval s @ map (\<lambda>j. val M ! j)
                                  (filter (\<lambda>j. xb \<le> col M ! j \<and> col M ! j < xe) js),
                rcol := rcol s @ map (\<lambda>j. the (map_of r2l (col M ! j)))
                                  (filter (\<lambda>j. \<not> (xb \<le> col M ! j \<and> col M ! j < xe)) js),
                rval := rval s @ map (\<lambda>j. val M ! j)
                                  (filter (\<lambda>j. \<not> (xb \<le> col M ! j \<and> col M ! j < xe)) js)\<rparr>)"
  using assms
proof (induction js arbitrary: s)
  case Nil
  show ?case by simp
next
  case (Cons j js)
  have j: "j < length (col M)" "j < length (val M)" using Cons.prems(1) by simp_all
  have rest: "\<forall>j\<in>set js. j < length (col M) \<and> j < length (val M)"
    "\<forall>j\<in>set js. \<not> (xb \<le> col M ! j \<and> col M ! j < xe) \<longrightarrow> map_of r2l (col M ! j) \<noteq> None"
    using Cons.prems by simp_all
  show ?case
  proof (cases "xb \<le> col M ! j \<and> col M ! j < xe")
    case True
    then have step: "split_nz xb xe r2l M j s
                     = Inr (s\<lparr>lcol := lcol s @ [col M ! j - xb], lval := lval s @ [val M ! j]\<rparr>)"
      using j by (simp add: split_nz_def)
    show ?thesis
      using True by (simp add: step Cons.IH[OF rest])
  next
    case False
    with Cons.prems(2) obtain k where k: "map_of r2l (col M ! j) = Some k" by auto
    have step: "split_nz xb xe r2l M j s
                = Inr (s\<lparr>rcol := rcol s @ [k], rval := rval s @ [val M ! j]\<rparr>)"
      using False j k by (auto simp: split_nz_def)
    show ?thesis
      using False k by (auto simp: step Cons.IH[OF rest])
  qed
qed

lemma zip_entries:
  "zip (map (\<lambda>j. f (cs ! j)) (filter (\<lambda>j. P (cs ! j)) js))
       (map (\<lambda>j. vs ! j) (filter (\<lambda>j. P (cs ! j)) js))
   = map (\<lambda>(c, v). (f c, v)) (filter (\<lambda>(c, v). P c) (map (\<lambda>j. (cs ! j, vs ! j)) js))"
  by (induction js) auto

lemma split_row_step:
  assumes "csr_ok n M" "i < n"
    and "\<forall>j\<in>set [row M ! i..<row M ! (i + 1)].
           \<not> (xb \<le> col M ! j \<and> col M ! j < xe) \<longrightarrow> map_of r2l (col M ! j) \<noteq> None"
    and len: "length (lcol s) = length (lval s)" "length (rcol s) = length (rval s)"
  shows "\<exists>s'. split_row xb xe r2l M i s = Inr s'
          \<and> zip (lcol s') (lval s') = zip (lcol s) (lval s) @ loc_entries M xb xe i
          \<and> length (lcol s') = length (lval s')
          \<and> lrow s' = lrow s @ [length (lcol s')]
          \<and> zip (rcol s') (rval s') = zip (rcol s) (rval s) @ rem_entries M xb xe r2l i
          \<and> length (rcol s') = length (rval s')
          \<and> rrow s' = rrow s @ [length (rcol s')]"
proof -
  let ?js = "[row M ! i..<row M ! (i + 1)]"
  let ?P = "\<lambda>j. xb \<le> col M ! j \<and> col M ! j < xe"
  have rows: "i < length (row M)" "i + 1 < length (row M)"
    using assms(1,2) by (simp_all add: csr_ok_def)
  have inb: "\<forall>j\<in>set ?js. j < length (col M) \<and> j < length (val M)"
    using csr_ok_row_bound[OF assms(1,2)] by auto
  let ?s1 = "s\<lparr>lcol := lcol s @ map (\<lambda>j. col M ! j - xb) (filter ?P ?js),
               lval := lval s @ map (\<lambda>j. val M ! j) (filter ?P ?js),
               rcol := rcol s @ map (\<lambda>j. the (map_of r2l (col M ! j))) (filter (\<lambda>j. \<not> ?P j) ?js),
               rval := rval s @ map (\<lambda>j. val M ! j) (filter (\<lambda>j. \<not> ?P j) ?js)\<rparr>"
  let ?s' = "?s1\<lparr>lrow := lrow ?s1 @ [length (lcol ?s1)], rrow := rrow ?s1 @ [length (rcol ?s1)]\<rparr>"
  have "split_row xb xe r2l M i s = Inr ?s'"
    using rows split_nz_fold[OF inb assms(3), of s] by (simp add: split_row_def)
  moreover have "zip (lcol ?s') (lval ?s') = zip (lcol s) (lval s) @ loc_entries M xb xe i"
  proof -
    have e: "zip (map (\<lambda>j. col M ! j - xb) (filter ?P ?js)) (map (\<lambda>j. val M ! j) (filter ?P ?js))
             = loc_entries M xb xe i"
      unfolding loc_entries_def row_entries_def
      by (rule zip_entries[where f = "\<lambda>c. c - xb" and P = "\<lambda>c. xb \<le> c \<and> c < xe"])
    have "zip (lcol ?s') (lval ?s')
          = zip (lcol s @ map (\<lambda>j. col M ! j - xb) (filter ?P ?js))
                (lval s @ map (\<lambda>j. val M ! j) (filter ?P ?js))"
      by simp
    also have "\<dots> = zip (lcol s) (lval s)
                     @ zip (map (\<lambda>j. col M ! j - xb) (filter ?P ?js))
                           (map (\<lambda>j. val M ! j) (filter ?P ?js))"
      using len(1) by (rule zip_append)
    finally show ?thesis unfolding e .
  qed
  moreover have "zip (rcol ?s') (rval ?s') = zip (rcol s) (rval s) @ rem_entries M xb xe r2l i"
  proof -
    have e: "zip (map (\<lambda>j. the (map_of r2l (col M ! j))) (filter (\<lambda>j. \<not> ?P j) ?js))
                 (map (\<lambda>j. val M ! j) (filter (\<lambda>j. \<not> ?P j) ?js))
             = rem_entries M xb xe r2l i"
      unfolding rem_entries_def row_entries_def
      by (rule zip_entries[where f = "\<lambda>c. the (map_of r2l c)"
            and P = "\<lambda>c. \<not> (xb \<le> c \<and> c < xe)"])
    have "zip (rcol ?s') (rval ?s')
          = zip (rcol s @ map (\<lambda>j. the (map_of r2l (col M ! j))) (filter (\<lambda>j. \<not> ?P j) ?js))
                (rval s @ map (\<lambda>j. val M ! j) (filter (\<lambda>j. \<not> ?P j) ?js))"
      by simp
    also have "\<dots> = zip (rcol s) (rval s)
                     @ zip (map (\<lambda>j. the (map_of r2l (col M ! j))) (filter (\<lambda>j. \<not> ?P j) ?js))
                           (map (\<lambda>j. val M ! j) (filter (\<lambda>j. \<not> ?P j) ?js))"
      using len(2) by (rule zip_append)
    finally show ?thesis unfolding e .
  qed
  moreover have "length (lcol ?s') = length (lval ?s')" "length (rcol ?s') = length (rval ?s')"
    "lrow ?s' = lrow s @ [length (lcol ?s')]" "rrow ?s' = rrow s @ [length (rcol ?s')]"
    using len by simp_all
  ultimately show ?thesis by blast
qed

lemma concat_slice:
  assumes "i < length xss"
  shows "map (\<lambda>j. concat xss ! j)
           [length (concat (take i xss))..<length (concat (take (Suc i) xss))] = xss ! i"
proof -
  let ?A = "concat (take i xss)"
  let ?B = "xss ! i"
  let ?C = "concat (drop (Suc i) xss)"
  have xss: "concat xss = ?A @ ?B @ ?C"
    using id_take_nth_drop[OF assms] by (metis concat.simps(2) concat_append)
  have tk: "concat (take (Suc i) xss) = ?A @ ?B"
    using assms by (simp add: take_Suc_conv_app_nth)
  show ?thesis
    unfolding tk by (rule nth_equalityI) (auto simp: xss nth_append)
qed

lemma split_rows:
  assumes "csr_ok n M" "beg + k \<le> n"
    and "\<forall>i\<in>set [beg..<beg + k]. \<forall>j\<in>set [row M ! i..<row M ! (i + 1)].
           \<not> (xb \<le> col M ! j \<and> col M ! j < xe) \<longrightarrow> map_of r2l (col M ! j) \<noteq> None"
    and "lrow s0 = [0]" "lcol s0 = []" "lval s0 = []" "rcol s0 = []" "rval s0 = []"
  shows "\<exists>s. foldM (split_row xb xe r2l M) [beg..<beg + k] s0 = Inr s
          \<and> zip (lcol s) (lval s) = concat (map (loc_entries M xb xe) [beg..<beg + k])
          \<and> length (lcol s) = length (lval s)
          \<and> lrow s = map (\<lambda>i. length (concat (map (loc_entries M xb xe) [beg..<beg + i]))) [0..<Suc k]
          \<and> zip (rcol s) (rval s) = concat (map (rem_entries M xb xe r2l) [beg..<beg + k])
          \<and> length (rcol s) = length (rval s)
          \<and> rrow s = rrow s0
                @ map (\<lambda>i. length (concat (map (rem_entries M xb xe r2l) [beg..<beg + i]))) [1..<Suc k]"
  using assms(2,3)
proof (induction k)
  case 0
  show ?case using assms(4-8) by simp
next
  case (Suc k)
  have "beg + k \<le> n"
    "\<forall>i\<in>set [beg..<beg + k]. \<forall>j\<in>set [row M ! i..<row M ! (i + 1)].
           \<not> (xb \<le> col M ! j \<and> col M ! j < xe) \<longrightarrow> map_of r2l (col M ! j) \<noteq> None"
    using Suc.prems by simp_all
  from Suc.IH[OF this] obtain s where s:
    "foldM (split_row xb xe r2l M) [beg..<beg + k] s0 = Inr s"
    "zip (lcol s) (lval s) = concat (map (loc_entries M xb xe) [beg..<beg + k])"
    "length (lcol s) = length (lval s)"
    "lrow s = map (\<lambda>i. length (concat (map (loc_entries M xb xe) [beg..<beg + i]))) [0..<Suc k]"
    "zip (rcol s) (rval s) = concat (map (rem_entries M xb xe r2l) [beg..<beg + k])"
    "length (rcol s) = length (rval s)"
    "rrow s = rrow s0
       @ map (\<lambda>i. length (concat (map (rem_entries M xb xe r2l) [beg..<beg + i]))) [1..<Suc k]"
    by blast
  have i: "beg + k < n" using Suc.prems(1) by simp
  have g: "\<forall>j\<in>set [row M ! (beg + k)..<row M ! (beg + k + 1)].
           \<not> (xb \<le> col M ! j \<and> col M ! j < xe) \<longrightarrow> map_of r2l (col M ! j) \<noteq> None"
    using Suc.prems(2) by simp
  from split_row_step[OF assms(1) i g s(3,6)] obtain s' where s':
    "split_row xb xe r2l M (beg + k) s = Inr s'"
    "zip (lcol s') (lval s') = zip (lcol s) (lval s) @ loc_entries M xb xe (beg + k)"
    "length (lcol s') = length (lval s')"
    "lrow s' = lrow s @ [length (lcol s')]"
    "zip (rcol s') (rval s') = zip (rcol s) (rval s) @ rem_entries M xb xe r2l (beg + k)"
    "length (rcol s') = length (rval s')"
    "rrow s' = rrow s @ [length (rcol s')]"
    by blast
  have run: "foldM (split_row xb xe r2l M) [beg..<beg + Suc k] s0 = Inr s'"
    using s(1) s'(1) by (simp add: foldM_append)
  have zl: "zip (lcol s') (lval s') = concat (map (loc_entries M xb xe) [beg..<beg + Suc k])"
    using s'(2) s(2) by simp
  have zr: "zip (rcol s') (rval s') = concat (map (rem_entries M xb xe r2l) [beg..<beg + Suc k])"
    using s'(5) s(5) by simp
  have ll: "length (lcol s') = length (concat (map (loc_entries M xb xe) [beg..<beg + Suc k]))"
    using arg_cong[OF zl, of length] s'(3) by simp
  have lr: "length (rcol s') = length (concat (map (rem_entries M xb xe r2l) [beg..<beg + Suc k]))"
    using arg_cong[OF zr, of length] s'(6) by simp
  have "lrow s' = map (\<lambda>i. length (concat (map (loc_entries M xb xe) [beg..<beg + i]))) [0..<Suc (Suc k)]"
    unfolding s'(4) s(4) ll by simp
  moreover have "rrow s' = rrow s0
       @ map (\<lambda>i. length (concat (map (rem_entries M xb xe r2l) [beg..<beg + i]))) [1..<Suc (Suc k)]"
    unfolding s'(7) s(7) lr by simp
  ultimately show ?case
    using run zl zr s'(3,6) by blast
qed

text \<open>Reading row \<open>i\<close> back from a block whose offsets are the running lengths of its
  rows.\<close>

lemma block_row_entries:
  assumes "zip C V = concat (map E [beg..<beg + k])" "length C = length V"
    and "R = map (\<lambda>i. length (concat (map E [beg..<beg + i]))) [0..<Suc k]" "i < k"
  shows "row_entries \<lparr>row = R, col = C, val = V\<rparr> i = E (beg + i)"
proof -
  let ?xss = "map E [beg..<beg + k]"
  have tk: "take t ?xss = map E [beg..<beg + t]" if "t \<le> k" for t
    using that by (simp add: take_map min_def)
  have Ri: "R ! i = length (concat (take i ?xss))"
    using assms(3,4) tk[of i] by (simp add: nth_append del: upt_Suc)
  have Rs: "R ! (i + 1) = length (concat (take (Suc i) ?xss))"
    using assms(3,4) tk[of "Suc i"] by (simp del: upt_Suc)
  have le: "length (concat (take (Suc i) ?xss)) \<le> length (concat ?xss)"
    by (metis append_take_drop_id concat_append length_append le_add1)
  have "row_entries \<lparr>row = R, col = C, val = V\<rparr> i
        = map (\<lambda>j. (C ! j, V ! j)) [R ! i..<R ! (i + 1)]"
    by (simp add: row_entries_def)
  also have "\<dots> = map (\<lambda>j. zip C V ! j) [R ! i..<R ! (i + 1)]"
  proof (rule map_cong[OF refl])
    fix j assume "j \<in> set [R ! i..<R ! (i + 1)]"
    then have "j < length (concat ?xss)" using le Rs by simp
    then have "j < length (zip C V)" using assms(1) by simp
    then show "(C ! j, V ! j) = zip C V ! j" by simp
  qed
  also have "\<dots> = ?xss ! i"
    unfolding assms(1) Ri Rs by (rule concat_slice) (use assms(4) in simp)
  also have "\<dots> = E (beg + i)" using assms(4) by simp
  finally show ?thesis .
qed

lemma block_okI:
  assumes "block_shape n b" "\<forall>i<n. \<forall>e\<in>set (row_entries b i). fst e < length x"
  shows "block_ok n b x"
  unfolding block_ok_def
proof (intro conjI allI impI ballI)
  show "n < length (row b)" using assms(1) by (simp add: block_shape_def)
  fix i j assume i: "i < n" and j: "j \<in> set [row b ! i..<row b ! (i + 1)]"
  have "j < length (col b)" using assms(1) i j by (auto simp: block_shape_def)
  then show "j < length (col b)" "j < length (val b)"
    using assms(1) by (simp_all add: block_shape_def)
  have "(col b ! j, val b ! j) \<in> set (row_entries b i)"
    using j by (auto simp: row_entries_def)
  with assms(2) i show "col b ! j < length x" by fastforce
qed

lemma in_concat_map: "i \<in> set is \<Longrightarrow> x \<in> set (f i) \<Longrightarrow> x \<in> set (concat (map f is))"
  by auto

lemma ghost_spec_member:
  assumes "i \<in> set [beg..<en]" "j \<in> set [row M ! i..<row M ! (i + 1)]"
    "\<not> (xb \<le> col M ! j \<and> col M ! j < xe)"
  shows "col M ! j \<in> ghost_spec M beg en xb xe"
proof -
  have "col M ! j \<in> set (filter (\<lambda>c. \<not> (xb \<le> c \<and> c < xe))
                           (map (\<lambda>j. col M ! j) [row M ! i..<row M ! (i + 1)]))"
    using assms(2,3) by (simp del: set_upt)
  from in_concat_map[OF assms(1), of _ "\<lambda>i. filter (\<lambda>c. \<not> (xb \<le> c \<and> c < xe))
                           (map (\<lambda>j. col M ! j) [row M ! i..<row M ! (i + 1)])", OF this]
  show ?thesis unfolding ghost_spec_def .
qed

lemma SpMatCSR_new_general:
  assumes "csr_ok n M" "beg \<le> en" "en \<le> n" "beg \<noteq> 0 \<or> rc \<noteq> []"
    and "ghost_spec M beg en xb xe \<subseteq> set rc"
    and "vectors_fit n M"
  shows "\<exists>S. SpMatCSR_new beg en xb xe M rc = Inr S \<and> csr_n S = en - beg
          \<and> has_rem S = (rc \<noteq> [])
          \<and> (has_loc S \<longrightarrow> block_shape (en - beg) (loc S))
          \<and> (has_rem S \<longrightarrow> block_shape (en - beg) (rem S))
          \<and> (\<forall>i<en - beg. (if has_loc S then row_entries (loc S) i else [])
                            = loc_entries M xb xe (beg + i))
          \<and> (\<forall>i<en - beg. (if has_rem S then row_entries (rem S) i else [])
                            = rem_entries M xb xe (r2l_of rc) (beg + i))"
proof -
  define k where "k = en - beg"
  have en: "en = beg + k" using assms(2) by (simp add: k_def)
  let ?r2l = "r2l_of rc"
  let ?L = "loc_entries M xb xe"
  let ?R = "rem_entries M xb xe ?r2l"
  let ?s0 = "\<lparr>lrow = [0], lcol = [], lval = [],
              rrow = (if rc \<noteq> [] then [0] else []), rcol = [], rval = []\<rparr> :: 'a split_state"
  have defd: "\<forall>i\<in>set [beg..<beg + k]. \<forall>j\<in>set [row M ! i..<row M ! (i + 1)].
           \<not> (xb \<le> col M ! j \<and> col M ! j < xe) \<longrightarrow> map_of ?r2l (col M ! j) \<noteq> None"
  proof (intro ballI impI)
    fix i j assume "i \<in> set [beg..<beg + k]" "j \<in> set [row M ! i..<row M ! (i + 1)]"
      "\<not> (xb \<le> col M ! j \<and> col M ! j < xe)"
    then have "col M ! j \<in> ghost_spec M beg en xb xe"
      unfolding en by (rule ghost_spec_member)
    with assms(5) show "map_of ?r2l (col M ! j) \<noteq> None"
      using r2l_of_defined by blast
  qed
  have "beg + k \<le> n" using assms(3) en by simp
  from split_rows[OF assms(1) this defd, of ?s0] obtain s where s:
    "foldM (split_row xb xe ?r2l M) [beg..<beg + k] ?s0 = Inr s"
    "zip (lcol s) (lval s) = concat (map ?L [beg..<beg + k])"
    "length (lcol s) = length (lval s)"
    "lrow s = map (\<lambda>i. length (concat (map ?L [beg..<beg + i]))) [0..<Suc k]"
    "zip (rcol s) (rval s) = concat (map ?R [beg..<beg + k])"
    "length (rcol s) = length (rval s)"
    "rrow s = rrow ?s0 @ map (\<lambda>i. length (concat (map ?R [beg..<beg + i]))) [1..<Suc k]"
    by auto
  let ?S = "\<lparr>csr_n = k, has_loc = (last (lrow s) \<noteq> 0), has_rem = (rc \<noteq> []),
             loc = (if last (lrow s) \<noteq> 0
                    then \<lparr>row = lrow s, col = lcol s, val = lval s\<rparr> else no_buffers),
             rem = (if rc \<noteq> []
                    then \<lparr>row = rrow s, col = rcol s, val = rval s\<rparr> else no_buffers)\<rparr>"
  have "reserve_buffers beg (beg + k) M rc = Inr ()"
    using reserve_buffers_ok[OF assms(1,2,3,6)] unfolding en .
  then have new: "SpMatCSR_new beg en xb xe M rc = Inr ?S"
    using assms(4) s(1) unfolding en by (auto simp: SpMatCSR_new_def Let_def)
  have lenL: "length (lcol s) = length (concat (map ?L [beg..<beg + k]))"
    using arg_cong[OF s(2), of length] s(3) by simp
  have lenR: "length (rcol s) = length (concat (map ?R [beg..<beg + k]))"
    using arg_cong[OF s(5), of length] s(6) by simp
  have lastL: "last (lrow s) = length (concat (map ?L [beg..<beg + k]))"
    unfolding s(4) by (simp del: upt_Suc add: last_map)
  have prefix: "length (concat (map E [beg..<beg + t])) \<le> length (concat (map E [beg..<beg + k]))"
    if "t \<le> k" for t and E :: "nat \<Rightarrow> (nat \<times> 'a) list"
  proof -
    have "[beg..<beg + k] = [beg..<beg + t] @ [beg + t..<beg + k]"
      using that by (intro upt_split[symmetric]) auto
    then show ?thesis by simp
  qed
  have shapeL: "block_shape k \<lparr>row = lrow s, col = lcol s, val = lval s\<rparr>"
    unfolding block_shape_def
  proof (intro conjI allI impI)
    show "k < length (row \<lparr>row = lrow s, col = lcol s, val = lval s\<rparr>)" by (simp add: s(4))
    show "length (col \<lparr>row = lrow s, col = lcol s, val = lval s\<rparr>)
          = length (val \<lparr>row = lrow s, col = lcol s, val = lval s\<rparr>)" by (simp add: s(3))
    fix i assume "i < k"
    then show "row \<lparr>row = lrow s, col = lcol s, val = lval s\<rparr> ! (i + 1)
               \<le> length (col \<lparr>row = lrow s, col = lcol s, val = lval s\<rparr>)"
      using prefix[of "Suc i" ?L] by (simp add: s(4) lenL del: upt_Suc)
  qed
  have rrow: "rc \<noteq> [] \<Longrightarrow> rrow s = map (\<lambda>i. length (concat (map ?R [beg..<beg + i]))) [0..<Suc k]"
    unfolding s(7) by (simp add: upt_conv_Cons del: upt_Suc)
  have shapeR: "block_shape k \<lparr>row = rrow s, col = rcol s, val = rval s\<rparr>" if ne: "rc \<noteq> []"
    unfolding block_shape_def
  proof (intro conjI allI impI)
    show "k < length (row \<lparr>row = rrow s, col = rcol s, val = rval s\<rparr>)" by (simp add: rrow[OF ne])
    show "length (col \<lparr>row = rrow s, col = rcol s, val = rval s\<rparr>)
          = length (val \<lparr>row = rrow s, col = rcol s, val = rval s\<rparr>)" by (simp add: s(6))
    fix i assume "i < k"
    then show "row \<lparr>row = rrow s, col = rcol s, val = rval s\<rparr> ! (i + 1)
               \<le> length (col \<lparr>row = rrow s, col = rcol s, val = rval s\<rparr>)"
      using prefix[of "Suc i" ?R] by (simp add: rrow[OF ne] lenR del: upt_Suc)
  qed
  have rowsL: "(if has_loc ?S then row_entries (loc ?S) i else []) = ?L (beg + i)" if i: "i < k" for i
  proof (cases "last (lrow s) \<noteq> 0")
    case True
    then show ?thesis
      using block_row_entries[OF s(2,3,4) i] by simp
  next
    case False
    then have "concat (map ?L [beg..<beg + k]) = []" using lastL by simp
    moreover have "beg + i \<in> set [beg..<beg + k]" using i by simp
    ultimately have "?L (beg + i) = []" by (simp del: set_upt)
    with False show ?thesis by simp
  qed
  have rowsR: "(if has_rem ?S then row_entries (rem ?S) i else []) = ?R (beg + i)" if i: "i < k" for i
  proof (cases "rc \<noteq> []")
    case True
    then show ?thesis
      using block_row_entries[OF s(5,6) rrow[OF True] i] by simp
  next
    case False
    have "filter (\<lambda>(c, v). \<not> (xb \<le> c \<and> c < xe)) (row_entries M (beg + i)) = []"
    proof (rule ccontr)
      assume "filter (\<lambda>(c, v). \<not> (xb \<le> c \<and> c < xe)) (row_entries M (beg + i)) \<noteq> []"
      then obtain e where e: "e \<in> set (row_entries M (beg + i))" "\<not> (xb \<le> fst e \<and> fst e < xe)"
        by (auto simp: filter_empty_conv)
      then obtain j where j: "j \<in> set [row M ! (beg + i)..<row M ! (beg + i + 1)]" "fst e = col M ! j"
        by (auto simp: row_entries_def)
      have "beg + i \<in> set [beg..<en]" using i en by simp
      from ghost_spec_member[OF this j(1)] e(2) j(2) assms(5) False show False by auto
    qed
    then have "?R (beg + i) = []" by (simp add: rem_entries_def)
    with False show ?thesis by simp
  qed
  show ?thesis
  proof (intro exI[of _ ?S] conjI allI impI)
    show "SpMatCSR_new beg en xb xe M rc = Inr ?S" by (rule new)
    show "csr_n ?S = en - beg" by (simp add: k_def)
    show "has_rem ?S = (rc \<noteq> [])" by simp
    show "block_shape (en - beg) (loc ?S)" if "has_loc ?S"
      using that shapeL by (simp add: k_def)
    show "block_shape (en - beg) (rem ?S)" if "has_rem ?S"
      using that shapeR by (simp add: k_def)
    show "(if has_loc ?S then row_entries (loc ?S) i else []) = ?L (beg + i)" if "i < en - beg" for i
      using rowsL[of i] that by (simp only: k_def)
    show "(if has_rem ?S then row_entries (rem ?S) i else []) = ?R (beg + i)" if "i < en - beg" for i
      using rowsR[of i] that by (simp only: k_def)
  qed
qed

lemma dot_row_entries: "dot_row b x i = dot_entries (row_entries b i) x"
  by (simp add: dot_row_def dot_entries_def row_entries_def comp_def)

lemma dot_entries_Nil [simp]: "dot_entries [] x = 0"
  by (simp add: dot_entries_def)

lemma dot_entries_split:
  "dot_entries (filter P es) x + dot_entries (filter (\<lambda>e. \<not> P e) es) x = dot_entries es x"
  by (induction es) (auto simp: dot_entries_def add.assoc add.left_commute)

lemma dot_entries_cong:
  assumes "\<forall>e\<in>set es. x ! fst (f e) = x' ! fst e \<and> snd (f e) = snd e"
  shows "dot_entries (map f es) x = dot_entries es x'"
  using assms by (induction es) (auto simp: dot_entries_def case_prod_beta)

lemma SpMatCSR_new_fast:
  assumes "csr_ok n M" "en \<le> n"
  shows "\<exists>S. SpMatCSR_new 0 en xb xe M [] = Inr S \<and> csr_n S = en \<and> \<not> has_rem S
          \<and> (has_loc S \<longrightarrow> block_shape en (loc S))
          \<and> (\<forall>i<en. (if has_loc S then row_entries (loc S) i else []) = row_entries M i)"
proof -
  let ?rn = "row M ! en"
  have len: "length (row M) = n + 1" "length (val M) = length (col M)"
    using assms(1) by (simp_all add: csr_ok_def)
  have top: "?rn \<le> length (col M)"
  proof -
    have "?rn \<le> row M ! n"
      by (rule sorted_nth_mono) (use assms in \<open>auto simp: csr_ok_def\<close>)
    then show ?thesis using assms(1) by (simp add: csr_ok_def)
  qed
  have mono: "row M ! (i + 1) \<le> ?rn" if "i < en" for i
    by (rule sorted_nth_mono) (use assms that in \<open>auto simp: csr_ok_def\<close>)
  show ?thesis
  proof (cases "?rn = 0")
    case True
    let ?S = "\<lparr>csr_n = en, has_loc = False, has_rem = False, loc = no_buffers, rem = no_buffers\<rparr>
              :: 'a SpMatCSR"
    have "SpMatCSR_new 0 en xb xe M [] = Inr ?S"
      using True assms(2) len by (simp add: SpMatCSR_new_def)
    moreover have "row_entries M i = []" if "i < en" for i
      using mono[OF that] True by (simp add: row_entries_def)
    ultimately show ?thesis by (intro exI[of _ ?S]) simp
  next
    case False
    let ?b = "\<lparr>row = take (en + 1) (row M), col = take ?rn (col M), val = take ?rn (val M)\<rparr>"
    let ?S = "\<lparr>csr_n = en, has_loc = True, has_rem = False, loc = ?b, rem = no_buffers\<rparr>"
    have new: "SpMatCSR_new 0 en xb xe M [] = Inr ?S"
      using False assms(2) len top by (simp add: SpMatCSR_new_def rd_range_def)
    have shape: "block_shape en ?b"
      unfolding block_shape_def using assms(2) len top mono by (auto simp: min_def)
    have rows: "row_entries ?b i = row_entries M i" if "i < en" for i
      unfolding row_entries_def
    proof -
      have "map (\<lambda>j. (col ?b ! j, val ?b ! j)) [row ?b ! i..<row ?b ! (i + 1)]
            = map (\<lambda>j. (col ?b ! j, val ?b ! j)) [row M ! i..<row M ! (i + 1)]"
        using that by simp
      also have "\<dots> = map (\<lambda>j. (col M ! j, val M ! j)) [row M ! i..<row M ! (i + 1)]"
        by (rule map_cong[OF refl]) (use mono[OF that] in auto)
      finally show "map (\<lambda>j. (col ?b ! j, val ?b ! j)) [row ?b ! i..<row ?b ! (i + 1)]
            = map (\<lambda>j. (col M ! j, val M ! j)) [row M ! i..<row M ! (i + 1)]" .
    qed
    show ?thesis
      using new shape rows by (intro exI[of _ ?S]) simp
  qed
qed

text \<open>The local entries of a row read the part of the vector on the device.\<close>

lemma dot_loc_entries:
  assumes "xe \<le> length x"
  shows "dot_entries (loc_entries M xb xe i) (take (xe - xb) (drop xb x))
         = dot_entries (filter (\<lambda>(c, v). xb \<le> c \<and> c < xe) (row_entries M i)) x"
  unfolding loc_entries_def
  by (rule dot_entries_cong) (use assms in \<open>auto simp: case_prod_beta\<close>)

lemma loc_entries_bound:
  assumes "e \<in> set (loc_entries M xb xe i)" "xe \<le> length x"
  shows "fst e < length (take (xe - xb) (drop xb x))"
  using assms by (auto simp: loc_entries_def)

text \<open>The remote entries of a row read the ghost values in the order of the ghost set.\<close>

lemma r2l_of_index:
  assumes "sorted_wrt (<) rc" "c \<in> set rc"
  shows "\<exists>k<length rc. rc ! k = c \<and> map_of (r2l_of rc) c = Some k"
proof -
  from assms(2) obtain k where k: "k < length rc" "rc ! k = c"
    by (auto simp: in_set_conv_nth)
  with r2l_of_nth[OF assms(1) k(1)] show ?thesis by auto
qed

lemma dot_rem_entries:
  assumes "sorted_wrt (<) rc"
    and "\<forall>e\<in>set (row_entries M i). \<not> (xb \<le> fst e \<and> fst e < xe) \<longrightarrow> fst e \<in> set rc"
  shows "dot_entries (rem_entries M xb xe (r2l_of rc) i) (map (\<lambda>c. x ! c) rc)
         = dot_entries (filter (\<lambda>(c, v). \<not> (xb \<le> c \<and> c < xe)) (row_entries M i)) x"
  unfolding rem_entries_def
proof (rule dot_entries_cong, intro ballI)
  fix e assume "e \<in> set (filter (\<lambda>(c, v). \<not> (xb \<le> c \<and> c < xe)) (row_entries M i))"
  then have "fst e \<in> set rc" using assms(2) by (auto simp: case_prod_beta)
  from r2l_of_index[OF assms(1) this] obtain k where
    "k < length rc" "rc ! k = fst e" "map_of (r2l_of rc) (fst e) = Some k" by blast
  then show "map (\<lambda>c. x ! c) rc ! fst (case e of (c, v) \<Rightarrow> (the (map_of (r2l_of rc) c), v)) = x ! fst e
             \<and> snd (case e of (c, v) \<Rightarrow> (the (map_of (r2l_of rc) c), v)) = snd e"
    by (simp add: case_prod_beta)
qed

lemma rem_entries_bound:
  assumes "sorted_wrt (<) rc" "e \<in> set (rem_entries M xb xe (r2l_of rc) i)"
    and "\<forall>e\<in>set (row_entries M i). \<not> (xb \<le> fst e \<and> fst e < xe) \<longrightarrow> fst e \<in> set rc"
  shows "fst e < length rc"
proof -
  from assms(2) obtain e' where e': "e' \<in> set (row_entries M i)" "\<not> (xb \<le> fst e' \<and> fst e' < xe)"
      "fst e = the (map_of (r2l_of rc) (fst e'))"
    by (auto simp: rem_entries_def case_prod_beta)
  with assms(3) have "fst e' \<in> set rc" by blast
  from r2l_of_index[OF assms(1) this] e'(3) show ?thesis by auto
qed

lemma row_entries_ghost:
  assumes "i \<in> set [beg..<en]" "ghost_spec M beg en xb xe \<subseteq> G"
  shows "\<forall>e\<in>set (row_entries M i). \<not> (xb \<le> fst e \<and> fst e < xe) \<longrightarrow> fst e \<in> G"
proof (intro ballI impI)
  fix e assume "e \<in> set (row_entries M i)" and out: "\<not> (xb \<le> fst e \<and> fst e < xe)"
  then obtain j where j: "j \<in> set [row M ! i..<row M ! (i + 1)]" "fst e = col M ! j"
    by (auto simp: row_entries_def)
  from ghost_spec_member[OF assms(1) j(1)] out j(2) assms(2) show "fst e \<in> G" by auto
qed

lemma mul_local_entries:
  assumes "0 < num_workgroups dev * wgsize dev" "csr_n S = k" "length yd = k"
    and "has_loc S \<longrightarrow> block_shape k (loc S)"
    and "\<forall>i<k. (if has_loc S then row_entries (loc S) i else []) = EL i"
    and "\<forall>i<k. \<forall>e\<in>set (EL i). fst e < length xd"
  shows "mul_local dev S xd yd alpha app
         = Inr (map (\<lambda>i. if app then yd ! i + alpha * dot_entries (EL i) xd
                         else alpha * dot_entries (EL i) xd) [0..<k])"
proof (cases "has_loc S")
  case True
  have rows: "row_entries (loc S) i = EL i" if "i < k" for i
    using assms(5) True that by simp
  have "\<forall>i<k. \<forall>e\<in>set (row_entries (loc S) i). fst e < length xd"
    using assms(6) rows by simp
  then have "block_ok k (loc S) xd"
    using assms(4) True by (intro block_okI) simp_all
  then have ok: "block_ok (csr_n S) (loc S) xd \<and> csr_n S \<le> length yd"
    using assms(2,3) by simp
  have "map (\<lambda>i. if i < csr_n S
                  then (if app then yd ! i + alpha * dot_row (loc S) xd i
                        else alpha * dot_row (loc S) xd i)
                  else yd ! i) [0..<length yd]
        = map (\<lambda>i. if app then yd ! i + alpha * dot_entries (EL i) xd
                    else alpha * dot_entries (EL i) xd) [0..<k]"
    unfolding assms(2,3) by (rule map_cong[OF refl]) (simp add: dot_row_entries rows)
  with mul_local_result[OF assms(1) ok, of alpha app] True show ?thesis by simp
next
  case False
  then have empty: "EL i = []" if "i < k" for i using assms(5) that by auto
  have "(if app then yd else replicate (length yd) 0)
        = map (\<lambda>i. if app then yd ! i + alpha * dot_entries (EL i) xd
                    else alpha * dot_entries (EL i) xd) [0..<k]"
    by (rule nth_equalityI) (use assms(3) empty in auto)
  with mul_local_result[OF assms(1), of S xd yd alpha app] False show ?thesis by simp
qed

lemma mul_remote_entries:
  assumes "0 < num_workgroups dev * wgsize dev" "csr_n S = k" "length y1 = k"
    and "has_rem S \<longrightarrow> block_shape k (rem S)"
    and "\<forall>i<k. (if has_rem S then row_entries (rem S) i else []) = ER i"
    and "\<forall>i<k. \<forall>e\<in>set (ER i). fst e < length gh"
  shows "mul_remote dev S gh y1 alpha ev
         = Inr (map (\<lambda>i. y1 ! i + alpha * dot_entries (ER i) gh) [0..<k])"
proof (cases "has_rem S")
  case True
  have rows: "row_entries (rem S) i = ER i" if "i < k" for i
    using assms(5) True that by simp
  have "\<forall>i<k. \<forall>e\<in>set (row_entries (rem S) i). fst e < length gh"
    using assms(6) rows by simp
  then have "block_ok k (rem S) gh"
    using assms(4) True by (intro block_okI) simp_all
  then have ok: "block_ok (csr_n S) (rem S) gh \<and> csr_n S \<le> length y1"
    using assms(2,3) by simp
  have "map (\<lambda>i. if i < csr_n S then y1 ! i + alpha * dot_row (rem S) gh i else y1 ! i)
          [0..<length y1]
        = map (\<lambda>i. y1 ! i + alpha * dot_entries (ER i) gh) [0..<k]"
    unfolding assms(2,3) by (rule map_cong[OF refl]) (simp add: dot_row_entries rows)
  with mul_remote_result[OF assms(1) ok, of alpha ev] True show ?thesis by simp
next
  case False
  then have empty: "ER i = []" if "i < k" for i using assms(5) that by auto
  have "y1 = map (\<lambda>i. y1 ! i + alpha * dot_entries (ER i) gh) [0..<k]"
    by (rule nth_equalityI) (use assms(3) empty in auto)
  with mul_remote_result[OF assms(1), of S gh y1 alpha ev] False show ?thesis by simp
qed

text \<open>The Hoare rule of a counting loop.\<close>

lemma foldM_upt_inv:
  assumes "I 0 s0" and "\<And>k s. k < n \<Longrightarrow> I k s \<Longrightarrow> \<exists>s'. f k s = Inr s' \<and> I (Suc k) s'"
  shows "\<exists>s. foldM f [0..<n] s0 = Inr s \<and> I n s"
  using assms(2)
proof (induction n)
  case 0
  show ?case using assms(1) by simp
next
  case (Suc n)
  have "\<exists>s. foldM f [0..<n] s0 = Inr s \<and> I n s"
  proof (rule Suc.IH)
    fix k s assume "k < n" "I k s"
    then show "\<exists>s'. f k s = Inr s' \<and> I (Suc k) s'" using Suc.prems[of k s] by simp
  qed
  then obtain s where s: "foldM f [0..<n] s0 = Inr s" "I n s" by blast
  from Suc.prems[of n s] s(2) obtain s' where "f n s = Inr s'" "I (Suc n) s'" by auto
  with s(1) show ?case by (simp add: foldM_append)
qed

lemma alignup_ge: "0 < m \<Longrightarrow> n \<le> alignup n m"
proof -
  assume m: "0 < m"
  have "n mod m < m" "n mod m \<le> n" using m by simp_all
  then have "n \<le> n - n mod m + m" by linarith
  then show ?thesis unfolding alignup_def by (simp only: split: if_splits) simp
qed

lemma gather_ok:
  assumes "n \<le> g" "length out = n" "n \<le> length cs" "\<forall>t<n. cs ! t < length vals"
  shows "gather_vals_to_send g n vals cs out = Inr (map (\<lambda>t. vals ! (cs ! t)) [0..<n])"
proof -
  let ?f = "\<lambda>i out. if i < n then rbind (rd cs i) (\<lambda>c. rbind (rd vals c) (\<lambda>v. wr out i v))
                     else Inr out"
  have split: "[0..<g] = [0..<n] @ [n..<g]"
    using assms(1) by (intro upt_split[symmetric]) auto
  have first: "foldM ?f [0..<n] out
        = Inr (fold (\<lambda>i y. y[i := (\<lambda>i _. vals ! (cs ! i)) i (y ! i)]) [0..<n] out)
          \<and> length (fold (\<lambda>i y. y[i := (\<lambda>i _. vals ! (cs ! i)) i (y ! i)]) [0..<n] out) = n"
    by (rule foldM_pure[where I = "\<lambda>s. length s = n"]) (use assms in auto)
  have res: "fold (\<lambda>i y. y[i := (\<lambda>i _. vals ! (cs ! i)) i (y ! i)]) [0..<n] out
             = map (\<lambda>t. vals ! (cs ! t)) [0..<n]"
    using fold_update_upt[of n out "\<lambda>i _. vals ! (cs ! i)"] assms(2) by simp
  have second: "foldM ?f [n..<g] s = Inr s" for s :: "'a list"
  proof -
    have "foldM ?f is s = Inr s" if "\<forall>i\<in>set is. n \<le> i" for "is"
      using that by (induction "is") auto
    then show ?thesis by simp
  qed
  show ?thesis
    unfolding gather_vals_to_send_def split foldM_append using first res second by simp
qed

text \<open>The renumbering pass does what C2 says; so does the fast path when the columns
  of the device start at 0.\<close>

lemma SpMatCSR_new_spec:
  assumes "csr_ok n M" "beg < en" "en \<le> n" "ghost_spec M beg en xb xe = set rc"
    and "beg = 0 \<and> rc = [] \<longrightarrow> xb = 0"
    and "vectors_fit n M"
  shows "\<exists>S. SpMatCSR_new beg en xb xe M rc = Inr S \<and> store_spec M beg en xb xe rc S"
proof (cases "beg = 0 \<and> rc = []")
  case False
  then have gen: "beg \<noteq> 0 \<or> rc \<noteq> []" by simp
  have "ghost_spec M beg en xb xe \<subseteq> set rc" using assms(4) by simp
  from SpMatCSR_new_general[OF assms(1) less_imp_le[OF assms(2)] assms(3) gen this assms(6)]
  show ?thesis unfolding store_spec_def by blast
next
  case True
  then have xb: "xb = 0" and beg: "beg = 0" and rc: "rc = []" using assms(5) by simp_all
  from SpMatCSR_new_fast[OF assms(1,3), of xb xe] obtain S where S:
    "SpMatCSR_new 0 en xb xe M [] = Inr S" "csr_n S = en" "\<not> has_rem S"
    "has_loc S \<longrightarrow> block_shape en (loc S)"
    "\<forall>i<en. (if has_loc S then row_entries (loc S) i else []) = row_entries M i"
    by blast
  have allloc: "\<forall>e\<in>set (row_entries M i). 0 \<le> fst e \<and> fst e < xe" if "i < en" for i
  proof -
    have "i \<in> set [beg..<en]" using that beg by simp
    from row_entries_ghost[OF this, of M xb xe "{}"] assms(4) rc xb show ?thesis by auto
  qed
  have L: "loc_entries M 0 xe i = row_entries M i" if "i < en" for i
  proof -
    have "filter (\<lambda>(c, v). 0 \<le> c \<and> c < xe) (row_entries M i) = row_entries M i"
      using allloc[OF that] by (auto simp: filter_id_conv)
    then show ?thesis by (simp add: loc_entries_def case_prod_beta)
  qed
  have R: "rem_entries M 0 xe (r2l_of []) i = []" if "i < en" for i
  proof -
    have "filter (\<lambda>(c, v). \<not> (0 \<le> c \<and> c < xe)) (row_entries M i) = []"
      using allloc[OF that] by (auto simp: filter_empty_conv)
    then show ?thesis by (simp add: rem_entries_def)
  qed
  have "store_spec M beg en xb xe rc S"
    unfolding store_spec_def beg rc xb using S(2-5) L R by simp
  with S(1) show ?thesis unfolding beg rc by blast
qed

subsection \<open>The product on a constructed matrix\<close>

text \<open>The state of the planner after the construction, for one and for several
  devices.\<close>

lemma ghost_spec_empty_single:
  assumes "csr_ok n M" "cols_ok m M" "en \<le> n"
  shows "ghost_spec M beg en 0 m = {}"
proof -
  have "ghost_spec M beg en 0 m \<subseteq> set (col M)"
    by (rule ghost_spec_cols[OF assms(1,3)])
  moreover have "\<forall>c\<in>ghost_spec M beg en 0 m. \<not> (0 \<le> c \<and> c < m)"
    by (auto simp: ghost_spec_def)
  ultimately show ?thesis
    using assms(2) by (auto simp: cols_ok_def list_all_iff)
qed

lemma plan:
  fixes M :: "'a::comm_semiring_0 csr_buffers"
  assumes "1 \<le> length q" "csr_ok n M" "cols_ok m M"
    and "part_ok (length q) n prt" "part_ok (length q) m xpart"
  shows "\<exists>rc A. setup_exchange (SpMat_init q prt n m rn :: 'a SpMat) xpart M = Inr (rc, A)
          \<and> length rc = length q
          \<and> (\<forall>d<length q. set (rc ! d)
                = ghost_spec M (prt ! d) (prt ! (d + 1)) (xpart ! d) (xpart ! (d + 1))
                \<and> sorted_wrt (<) (rc ! d))
          \<and> queue A = q \<and> part A = prt \<and> mtx A = replicate (length q) None
          \<and> length (exc A) = length q
          \<and> (send_list rc = [] \<longrightarrow> rx A = [])
          \<and> (send_list rc \<noteq> [] \<longrightarrow>
                cidx A = build_cidx (send_list rc) xpart (length q)
                \<and> rx A = replicate (length (send_list rc)) 0
                \<and> (\<forall>d<length q.
                      exc A ! d = sent (send_list rc) (build_cidx (send_list rc) xpart (length q))
                                    xpart d (recvd (send_list rc) (rc ! d) no_exdata)))"
proof (cases "length q = 1")
  case True
  let ?A = "SpMat_init q prt n m rn :: 'a SpMat"
  have se: "setup_exchange ?A xpart M = Inr ([[]], ?A)"
    by (rule setup_exchange_single) (simp add: SpMat_init_def True)
  have xp: "xpart ! 0 = 0" "xpart ! 1 = m" using assms(5) True by (simp_all add: part_ok_def)
  have "prt ! 1 \<le> n" using part_ok_nth_le(2)[OF assms(4), of 1 1] True by simp
  from ghost_spec_empty_single[OF assms(2,3) this, of "prt ! 0"]
  have g: "ghost_spec M (prt ! 0) (prt ! 1) (xpart ! 0) (xpart ! 1) = {}"
    unfolding xp .
  show ?thesis
    using se g True
    by (intro exI[of _ "[[]]"] exI[of _ ?A]) (simp add: SpMat_init_def send_list_def)
next
  case False
  let ?A = "SpMat_init q prt n m rn :: 'a SpMat"
  have A: "queue ?A = q" "part ?A = prt" "mtx ?A = replicate (length q) None"
    "exc ?A = replicate (length q) no_exdata"
    by (simp_all add: SpMat_init_def)
  have two: "2 \<le> length (queue ?A)" using False assms(1) A(1) by simp
  have xp: "sorted xpart" "length xpart = length (queue ?A) + 1"
    using assms(5) A(1) by (simp_all add: part_ok_def)
  have p: "part_ok (length (queue ?A)) n (part ?A)" using assms(4) A by simp
  have e: "length (exc ?A) = length (queue ?A)" using A by simp
  from setup_exchange_fields[OF two assms(2) p e xp] obtain rc A' where all:
    "setup_exchange ?A xpart M = Inr (rc, A') \<and> length rc = length (queue ?A)
          \<and> (\<forall>d<length (queue ?A).
                set (rc ! d)
                = ghost_spec M (part ?A ! d) (part ?A ! (d + 1)) (xpart ! d) (xpart ! (d + 1))
                \<and> sorted_wrt (<) (rc ! d))
          \<and> (send_list rc = [] \<longrightarrow> A' = ?A)
          \<and> (send_list rc \<noteq> [] \<longrightarrow>
                cidx A' = build_cidx (send_list rc) xpart (length (queue ?A))
                \<and> rx A' = replicate (length (send_list rc)) 0
                \<and> queue A' = queue ?A \<and> part A' = part ?A \<and> mtx A' = mtx ?A
                \<and> length (exc A') = length (queue ?A)
                \<and> (\<forall>d<length (queue ?A).
                      exc A' ! d = sent (send_list rc)
                                     (build_cidx (send_list rc) xpart (length (queue ?A))) xpart d
                                     (recvd (send_list rc) (rc ! d) (exc ?A ! d))))"
    by blast
  have rxA: "rx ?A = []" by (simp add: SpMat_init_def)
  show ?thesis
  proof (cases "send_list rc = []")
    case True
    with all have "A' = ?A" by blast
    with all True A rxA show ?thesis
      by (intro exI[of _ rc] exI[of _ A']) simp
  next
    case ne: False
    with all A show ?thesis
      by (intro exI[of _ rc] exI[of _ A']) simp
  qed
qed

lemma SpMat_new_ok:
  fixes M :: "'a::comm_semiring_0 csr_buffers"
  assumes "1 \<le> length q" "csr_ok n M" "cols_ok m M"
    and "part_ok (length q) n prt" "part_ok (length q) m xpart"
    and "fast_path_safe prt xpart (length q)"
    and "vectors_fit n M"
  shows "\<exists>rc A. SpMat_new q prt xpart n m M = Inr A
          \<and> length rc = length q
          \<and> (\<forall>d<length q. set (rc ! d)
                = ghost_spec M (prt ! d) (prt ! (d + 1)) (xpart ! d) (xpart ! (d + 1))
                \<and> sorted_wrt (<) (rc ! d))
          \<and> queue A = q \<and> length (mtx A) = length q
          \<and> (\<forall>d<length q. device_store M prt xpart rc d (mtx A ! d))
          \<and> length (exc A) = length q
          \<and> (send_list rc = [] \<longrightarrow> rx A = [])
          \<and> (send_list rc \<noteq> [] \<longrightarrow>
                cidx A = build_cidx (send_list rc) xpart (length q)
                \<and> rx A = replicate (length (send_list rc)) 0
                \<and> (\<forall>d<length q.
                      exc A ! d = sent (send_list rc) (build_cidx (send_list rc) xpart (length q))
                                    xpart d (recvd (send_list rc) (rc ! d) no_exdata)))"
proof -
  let ?D = "length q"
  have rn: "rd (row M) n = Inr (row M ! n)" using assms(2) by (simp add: csr_ok_def)
  from plan[OF assms(1-5), of "row M ! n"] obtain rc A1 where all:
    "setup_exchange (SpMat_init q prt n m (row M ! n) :: 'a SpMat) xpart M = Inr (rc, A1)
          \<and> length rc = length q
          \<and> (\<forall>d<length q. set (rc ! d)
                = ghost_spec M (prt ! d) (prt ! (d + 1)) (xpart ! d) (xpart ! (d + 1))
                \<and> sorted_wrt (<) (rc ! d))
          \<and> queue A1 = q \<and> part A1 = prt \<and> mtx A1 = replicate (length q) None
          \<and> length (exc A1) = length q
          \<and> (send_list rc = [] \<longrightarrow> rx A1 = [])
          \<and> (send_list rc \<noteq> [] \<longrightarrow>
                cidx A1 = build_cidx (send_list rc) xpart (length q)
                \<and> rx A1 = replicate (length (send_list rc)) 0
                \<and> (\<forall>d<length q.
                      exc A1 ! d = sent (send_list rc) (build_cidx (send_list rc) xpart (length q))
                                    xpart d (recvd (send_list rc) (rc ! d) no_exdata)))"
    by blast
  then have se: "setup_exchange (SpMat_init q prt n m (row M ! n) :: 'a SpMat) xpart M = Inr (rc, A1)"
    and rc: "\<forall>d<?D. set (rc ! d)
                = ghost_spec M (prt ! d) (prt ! (d + 1)) (xpart ! d) (xpart ! (d + 1))"
    and A1: "queue A1 = q" "part A1 = prt" "mtx A1 = replicate ?D None"
    by simp_all
  define I where "I = (\<lambda>k (A :: 'a SpMat). queue A = q \<and> part A = prt \<and> exc A = exc A1
      \<and> cidx A = cidx A1 \<and> rx A = rx A1 \<and> length (mtx A) = ?D
      \<and> (\<forall>d<?D. if d < k then device_store M prt xpart rc d (mtx A ! d) else mtx A ! d = None))"
  have "\<exists>A. foldM (make_strip xpart M rc) [0..<?D] A1 = Inr A \<and> I ?D A"
  proof (rule foldM_upt_inv)
    show "I 0 A1" using A1 by (simp add: I_def)
  next
    fix k and A :: "'a SpMat"
    assume k: "k < ?D" and IA: "I k A"
    then have pA: "part A = prt" and lm: "length (mtx A) = ?D"
      and old: "\<forall>d<?D. if d < k then device_store M prt xpart rc d (mtx A ! d) else mtx A ! d = None"
      by (simp_all add: I_def)
    show "\<exists>A'. make_strip xpart M rc k A = Inr A' \<and> I (Suc k) A'"
    proof (cases "prt ! k < prt ! (k + 1)")
      case False
      then have "make_strip xpart M rc k A = Inr A" by (simp add: make_strip_def pA)
      moreover have "device_store M prt xpart rc k (mtx A ! k)"
        using old k False by (simp add: device_store_def)
      then have "I (Suc k) A"
        using IA old unfolding I_def by (auto simp: less_Suc_eq)
      ultimately show ?thesis by blast
    next
      case True
      have en: "prt ! (k + 1) \<le> n"
        using part_ok_nth_le(2)[OF assms(4), of "k + 1" "k + 1"] k by simp
      have g: "ghost_spec M (prt ! k) (prt ! (k + 1)) (xpart ! k) (xpart ! (k + 1)) = set (rc ! k)"
        using rc k by simp
      have safe: "prt ! k = 0 \<and> rc ! k = [] \<longrightarrow> xpart ! k = 0"
        using assms(6) k True by (simp add: fast_path_safe_def)
      from SpMatCSR_new_spec[OF assms(2) True en g safe assms(7)] obtain S where S:
        "SpMatCSR_new (prt ! k) (prt ! (k + 1)) (xpart ! k) (xpart ! (k + 1)) M (rc ! k) = Inr S"
        "store_spec M (prt ! k) (prt ! (k + 1)) (xpart ! k) (xpart ! (k + 1)) (rc ! k) S"
        by blast
      let ?A' = "A\<lparr>mtx := (mtx A)[k := Some S]\<rparr>"
      have "make_strip xpart M rc k A = Inr ?A'"
        using True S(1) by (simp add: make_strip_def pA)
      moreover have "device_store M prt xpart rc k (mtx ?A' ! k)"
        using True S(2) k lm by (simp add: device_store_def)
      then have "I (Suc k) ?A'"
        using IA old k lm unfolding I_def by (auto simp: less_Suc_eq nth_list_update)
      ultimately show ?thesis by blast
    qed
  qed
  then obtain A where A: "foldM (make_strip xpart M rc) [0..<?D] A1 = Inr A" "I ?D A" by blast
  have new: "SpMat_new q prt xpart n m M = Inr A"
    using rn se A(1) by (simp add: SpMat_new_def)
  have fields: "queue A = q" "exc A = exc A1" "cidx A = cidx A1" "rx A = rx A1"
    "length (mtx A) = ?D" "\<forall>d<?D. device_store M prt xpart rc d (mtx A ! d)"
    using A(2) by (simp_all add: I_def)
  show ?thesis
    using new all by (intro exI[of _ rc] exI[of _ A]) (simp add: fields)
qed

lemma length_parts: "length (parts p v) = length p - 1"
  by (simp add: parts_def)

lemma parts_nth:
  assumes "part_ok D N p" "d < D" "length v = N"
  shows "parts p v ! d = take (p ! (d + 1) - p ! d) (drop (p ! d) v)"
    and "length (parts p v ! d) = p ! (d + 1) - p ! d"
    and "\<And>i. i < p ! (d + 1) - p ! d \<Longrightarrow> parts p v ! d ! i = v ! (p ! d + i)"
proof -
  have len: "length p = D + 1" using assms(1) by (simp add: part_ok_def)
  show eq: "parts p v ! d = take (p ! (d + 1) - p ! d) (drop (p ! d) v)"
    using assms(2) len by (simp add: parts_def)
  have le: "p ! d \<le> p ! (d + 1)" "p ! (d + 1) \<le> N"
    using part_ok_nth_le[OF assms(1), of d "d + 1"] assms(2) by simp_all
  show "length (parts p v ! d) = p ! (d + 1) - p ! d"
    unfolding eq using le assms(3) by simp
  show "parts p v ! d ! i = v ! (p ! d + i)" if "i < p ! (d + 1) - p ! d" for i
    unfolding eq using that le assms(3) by simp
qed

lemma exc_fields:
  fixes e :: "'a::zero exdata"
  assumes "e = sent cols ci xpart d (recvd cols s no_exdata)" "ci ! d \<le> ci ! (d + 1)"
  shows "cols_to_recv e = filter (\<lambda>i. cols ! i \<in> set s) [0..<length cols]"
    and "vals_to_recv e = replicate (length s) 0"
    and "cols_to_send e = map (\<lambda>i. cols ! i - xpart ! d) [ci ! d..<ci ! (d + 1)]"
    and "length (vals_to_send e) = ci ! (d + 1) - ci ! d"
  using assms by (auto simp: sent_def recvd_def no_exdata_def)

text \<open>The gather loop of \<^verbatim>\<open>mul\<close> fills \<^verbatim>\<open>rx\<close> with the entries of \<open>x\<close> at the columns
  of the send list.\<close>

lemma gather_loop:
  fixes A :: "'a::comm_semiring_0 SpMat"
  assumes xp: "part_ok D m xpart" and x: "length x = m"
    and q: "length (queue A) = D" "\<forall>dev\<in>set (queue A). 0 < wgsize dev"
    and ci: "cidx A = ci" "\<forall>d\<le>D. lb_pos cols (xpart ! d) (ci ! d)"
    and rx: "length (rx A) = length cols"
    and ex: "length (exc A) = D"
       "\<forall>d<D. cols_to_send (exc A ! d) = map (\<lambda>i. cols ! i - xpart ! d) [ci ! d..<ci ! (d + 1)]
              \<and> length (vals_to_send (exc A ! d)) = ci ! (d + 1) - ci ! d"
    and top: "ci ! D = length cols"
  shows "\<exists>A'. foldM (gather_dev (parts xpart x)) [0..<D] A = Inr A'
          \<and> queue A' = queue A \<and> mtx A' = mtx A
          \<and> rx A' = map (\<lambda>i. x ! (cols ! i)) [0..<length cols]
          \<and> length (exc A') = D
          \<and> (\<forall>d<D. cols_to_recv (exc A' ! d) = cols_to_recv (exc A ! d)
                    \<and> vals_to_recv (exc A' ! d) = vals_to_recv (exc A ! d))"
proof -
  define I where "I = (\<lambda>k (A' :: 'a SpMat). queue A' = queue A \<and> mtx A' = mtx A \<and> cidx A' = ci
      \<and> length (rx A') = length cols \<and> (\<forall>i<ci ! k. rx A' ! i = x ! (cols ! i))
      \<and> length (exc A') = D
      \<and> (\<forall>d<D. cols_to_recv (exc A' ! d) = cols_to_recv (exc A ! d)
                \<and> vals_to_recv (exc A' ! d) = vals_to_recv (exc A ! d)
                \<and> cols_to_send (exc A' ! d) = cols_to_send (exc A ! d)
                \<and> length (vals_to_send (exc A' ! d)) = length (vals_to_send (exc A ! d))))"
  have mono: "ci ! d \<le> ci ! (d + 1)" if "d < D" for d
  proof -
    have "xpart ! d \<le> xpart ! (d + 1)"
      using part_ok_nth_le(1)[OF xp, of d "d + 1"] that by simp
    moreover have "lb_pos cols (xpart ! d) (ci ! d)" "lb_pos cols (xpart ! (d + 1)) (ci ! (d + 1))"
      using ci(2) that by simp_all
    ultimately show ?thesis using lb_pos_mono by blast
  qed
  have zero: "ci ! 0 = 0"
  proof (rule ccontr)
    assume "ci ! 0 \<noteq> 0"
    moreover have lb: "lb_pos cols (xpart ! 0) (ci ! 0)" using ci(2) by simp
    ultimately have "0 < length cols" "0 < ci ! 0" by (auto simp: lb_pos_def)
    with lb have "cols ! 0 < xpart ! 0" unfolding lb_pos_def by blast
    then show False using xp by (simp add: part_ok_def)
  qed
  have "\<exists>A'. foldM (gather_dev (parts xpart x)) [0..<D] A = Inr A' \<and> I D A'"
  proof (rule foldM_upt_inv)
    show "I 0 A" using ci(1) rx ex(1) zero by (simp add: I_def)
  next
    fix k and A' :: "'a SpMat"
    assume k: "k < D" and IA: "I k A'"
    then have f: "queue A' = queue A" "mtx A' = mtx A" "cidx A' = ci"
      "length (rx A') = length cols" "\<forall>i<ci ! k. rx A' ! i = x ! (cols ! i)"
      "length (exc A') = D"
      and same: "\<forall>d<D. cols_to_recv (exc A' ! d) = cols_to_recv (exc A ! d)
                \<and> vals_to_recv (exc A' ! d) = vals_to_recv (exc A ! d)
                \<and> cols_to_send (exc A' ! d) = cols_to_send (exc A ! d)
                \<and> length (vals_to_send (exc A' ! d)) = length (vals_to_send (exc A ! d))"
      by (simp_all add: I_def)
    let ?n = "ci ! (k + 1) - ci ! k"
    show "\<exists>A''. gather_dev (parts xpart x) k A' = Inr A'' \<and> I (Suc k) A''"
    proof (cases "?n = 0")
      case True
      then have "gather_dev (parts xpart x) k A' = Inr A'"
        by (simp add: gather_dev_def f(3))
      moreover have "ci ! Suc k = ci ! k" using True mono[OF k] by simp
      then have "I (Suc k) A'" using IA by (simp add: I_def)
      ultimately show ?thesis by blast
    next
      case False
      let ?e = "exc A' ! k"
      let ?xd = "parts xpart x ! k"
      let ?cs = "map (\<lambda>i. cols ! i - xpart ! k) [ci ! k..<ci ! (k + 1)]"
      have cs: "cols_to_send ?e = ?cs" and lo: "length (vals_to_send ?e) = ?n"
        using same ex(2) k by simp_all
      have lb: "lb_pos cols (xpart ! k) (ci ! k)" "lb_pos cols (xpart ! (k + 1)) (ci ! (k + 1))"
        using ci(2) k by simp_all
      have topk: "ci ! (k + 1) \<le> length cols" using lb(2) by (simp add: lb_pos_def)
      have xd: "length ?xd = xpart ! (k + 1) - xpart ! k"
        "\<And>i. i < xpart ! (k + 1) - xpart ! k \<Longrightarrow> ?xd ! i = x ! (xpart ! k + i)"
        using parts_nth(2,3)[OF xp k x] by simp_all
      have col: "xpart ! k \<le> cols ! (ci ! k + t) \<and> cols ! (ci ! k + t) < xpart ! (k + 1)"
        if "t < ?n" for t
      proof -
        have a: "ci ! k + t < length cols" using that topk by simp
        have b: "ci ! k \<le> ci ! k + t \<and> ci ! k + t < ci ! (k + 1)" using that by simp
        show ?thesis using lb_pos_between[OF lb a] b by blast
      qed
      have inr: "\<forall>t<?n. ?cs ! t < length ?xd"
      proof (intro allI impI)
        fix t assume t: "t < ?n"
        have "cols ! (ci ! k + t) - xpart ! k < xpart ! (k + 1) - xpart ! k"
          using col[OF t] by linarith
        then show "?cs ! t < length ?xd" using t by (simp add: xd(1))
      qed
      have wg: "0 < wgsize (queue A' ! k)"
        using q k f(1) by (metis nth_mem)
      have g: "gather_vals_to_send (alignup ?n (wgsize (queue A' ! k))) ?n ?xd
                 (cols_to_send ?e) (vals_to_send ?e)
               = Inr (map (\<lambda>t. ?xd ! (?cs ! t)) [0..<?n])"
        unfolding cs by (rule gather_ok[OF alignup_ge[OF wg] lo _ inr]) simp
      let ?vs = "map (\<lambda>t. x ! (cols ! (ci ! k + t))) [0..<?n]"
      have vs: "map (\<lambda>t. ?xd ! (?cs ! t)) [0..<?n] = ?vs"
      proof (rule map_cong[OF refl])
        fix t assume "t \<in> set [0..<?n]"
        then have t: "t < ?n" by simp
        have c: "?cs ! t = cols ! (ci ! k + t) - xpart ! k" using t by simp
        have lt: "cols ! (ci ! k + t) - xpart ! k < xpart ! (k + 1) - xpart ! k"
          using col[OF t] by linarith
        have readd: "xpart ! k + (cols ! (ci ! k + t) - xpart ! k) = cols ! (ci ! k + t)"
          using col[OF t] by simp
        show "?xd ! (?cs ! t) = x ! (cols ! (ci ! k + t))"
          unfolding c xd(2)[OF lt] readd ..
      qed
      let ?rx = "take (ci ! k) (rx A') @ ?vs @ drop (ci ! k + length ?vs) (rx A')"
      let ?A'' = "A'\<lparr>exc := (exc A')[k := ?e\<lparr>vals_to_send := ?vs\<rparr>], rx := ?rx\<rparr>"
      have fit: "ci ! k + length ?vs \<le> length (rx A')"
        using topk mono[OF k] f(4) by simp
      have step: "gather_dev (parts xpart x) k A' = Inr ?A''"
        using False fit g[unfolded vs]
        by (simp add: gather_dev_def f(3) Let_def rd_range_def wr_range_def del: upt_Suc)
      have rxn: "?rx ! i = x ! (cols ! i)" if "i < ci ! Suc k" for i
      proof (cases "i < ci ! k")
        case True
        then show ?thesis using f(4,5) topk mono[OF k] by (simp add: nth_append)
      next
        case False
        then have a: "ci ! k \<le> i" and b: "i - ci ! k < ?n" using that by simp_all
        have lt: "length (take (ci ! k) (rx A')) = ci ! k"
          using f(4) topk mono[OF k] by simp
        have "?rx ! i = (?vs @ drop (ci ! k + length ?vs) (rx A')) ! (i - ci ! k)"
          using a by (simp only: nth_append lt) simp
        also have "\<dots> = ?vs ! (i - ci ! k)"
          using b by (simp only: nth_append length_map length_upt) simp
        also have "\<dots> = x ! (cols ! (ci ! k + (i - ci ! k)))"
          using b by (simp del: upt_Suc)
        also have "ci ! k + (i - ci ! k) = i" using a by simp
        finally show ?thesis .
      qed
      have "I (Suc k) ?A''"
        unfolding I_def
      proof (intro conjI allI impI)
        show "queue ?A'' = queue A" "mtx ?A'' = mtx A" "cidx ?A'' = ci"
          using f by simp_all
        show "length (rx ?A'') = length cols"
          using fit f(4) mono[OF k] by simp
        show "rx ?A'' ! i = x ! (cols ! i)" if "i < ci ! Suc k" for i
          using rxn[OF that] by simp
        show "length (exc ?A'') = D" using f(6) by simp
        fix d assume d: "d < D"
        show "cols_to_recv (exc ?A'' ! d) = cols_to_recv (exc A ! d)"
          "vals_to_recv (exc ?A'' ! d) = vals_to_recv (exc A ! d)"
          "cols_to_send (exc ?A'' ! d) = cols_to_send (exc A ! d)"
          "length (vals_to_send (exc ?A'' ! d)) = length (vals_to_send (exc A ! d))"
          using same d f(6) k lo by (auto simp: nth_list_update)
      qed
      with step show ?thesis by blast
    qed
  qed
  then obtain A' where A': "foldM (gather_dev (parts xpart x)) [0..<D] A = Inr A'" "I D A'"
    by blast
  have "rx A' = map (\<lambda>i. x ! (cols ! i)) [0..<length cols]"
    by (rule nth_equalityI) (use A'(2) top in \<open>auto simp: I_def\<close>)
  with A' show ?thesis by (intro exI[of _ A']) (simp add: I_def)
qed

lemma local_loop:
  fixes A :: "'a::comm_semiring_0 SpMat"
  assumes q: "length (queue A) = D" "\<forall>dev\<in>set (queue A). 0 < num_workgroups dev * wgsize dev"
    and st: "\<forall>d<D. case mtx A ! d of
                     None \<Rightarrow> N d = 0
                   | Some S \<Rightarrow> csr_n S = N d \<and> (has_loc S \<longrightarrow> block_shape (N d) (loc S))
                       \<and> (\<forall>i<N d. (if has_loc S then row_entries (loc S) i else []) = EL d i)"
    and bd: "\<forall>d<D. \<forall>i<N d. \<forall>e\<in>set (EL d i). fst e < length (xs ! d)"
    and y: "length ys = D" "\<forall>d<D. length (ys ! d) = N d"
  shows "foldM (local_dev A xs alpha app) [0..<D] ys
         = Inr (map (\<lambda>d. map (\<lambda>i. if app then ys ! d ! i + alpha * dot_entries (EL d i) (xs ! d)
                                   else alpha * dot_entries (EL d i) (xs ! d)) [0..<N d])
                  [0..<D])"
proof -
  let ?Y = "\<lambda>d. map (\<lambda>i. if app then ys ! d ! i + alpha * dot_entries (EL d i) (xs ! d)
                        else alpha * dot_entries (EL d i) (xs ! d)) [0..<N d]"
  define I where "I = (\<lambda>k (yc :: 'a list list). length yc = D
                        \<and> (\<forall>d<D. yc ! d = (if d < k then ?Y d else ys ! d)))"
  have "\<exists>yc. foldM (local_dev A xs alpha app) [0..<D] ys = Inr yc \<and> I D yc"
  proof (rule foldM_upt_inv)
    show "I 0 ys" using y(1) by (simp add: I_def)
  next
    fix k and yc :: "'a list list"
    assume k: "k < D" and "I k yc"
    then have yc: "length yc = D" "\<forall>d<D. yc ! d = (if d < k then ?Y d else ys ! d)"
      by (simp_all add: I_def)
    have yk: "yc ! k = ys ! k" "length (ys ! k) = N k" using yc(2) y(2) k by simp_all
    have "\<exists>yd. local_dev A xs alpha app k yc = Inr (yc[k := yd]) \<and> yd = ?Y k"
    proof (cases "mtx A ! k")
      case None
      then have "N k = 0" using st k by (auto split: option.splits)
      then have "ys ! k = ?Y k" using yk(2) by simp
      then have "yc[k := ?Y k] = yc" using yk(1) by (metis list_update_id)
      with None show ?thesis by (simp add: local_dev_def)
    next
      case (Some S)
      then have S: "csr_n S = N k" "has_loc S \<longrightarrow> block_shape (N k) (loc S)"
        "\<forall>i<N k. (if has_loc S then row_entries (loc S) i else []) = EL k i"
        using st k by (auto split: option.splits)
      have g: "0 < num_workgroups (queue A ! k) * wgsize (queue A ! k)"
        using q k by (metis nth_mem)
      have b: "\<forall>i<N k. \<forall>e\<in>set (EL k i). fst e < length (xs ! k)" using bd k by blast
      from mul_local_entries[OF g S(1) yk(2) S(2,3) b, of alpha app]
      show ?thesis using Some yk(1) by (simp add: local_dev_def)
    qed
    then have step: "local_dev A xs alpha app k yc = Inr (yc[k := ?Y k])" by blast
    have "I (Suc k) (yc[k := ?Y k])"
      unfolding I_def using yc k by (auto simp: nth_list_update less_Suc_eq)
    with step show "\<exists>s'. local_dev A xs alpha app k yc = Inr s' \<and> I (Suc k) s'" by blast
  qed
  then obtain yc where yc: "foldM (local_dev A xs alpha app) [0..<D] ys = Inr yc" "I D yc"
    by blast
  have "yc = map ?Y [0..<D]"
    by (rule nth_equalityI) (use yc(2) in \<open>auto simp: I_def\<close>)
  with yc(1) show ?thesis by simp
qed

lemma remote_loop:
  fixes A :: "'a::comm_semiring_0 SpMat"
  assumes q: "length (queue A) = D" "\<forall>dev\<in>set (queue A). 0 < num_workgroups dev * wgsize dev"
    and ex: "length (exc A) = D"
      "\<forall>d<D. cols_to_recv (exc A ! d) = recv d
             \<and> length (vals_to_recv (exc A ! d)) = length (recv d)"
    and rx: "\<forall>d<D. \<forall>p\<in>set (recv d). p < length (rx A)"
    and st: "\<forall>d<D. recv d \<noteq> [] \<longrightarrow>
               (\<exists>S. mtx A ! d = Some S \<and> csr_n S = N d
                  \<and> (has_rem S \<longrightarrow> block_shape (N d) (rem S))
                  \<and> (\<forall>i<N d. (if has_rem S then row_entries (rem S) i else []) = ER d i))"
    and bd: "\<forall>d<D. \<forall>i<N d. \<forall>e\<in>set (ER d i). fst e < length (recv d)"
    and y: "length y1 = D" "\<forall>d<D. length (y1 ! d) = N d"
  shows "\<exists>A'. foldM (remote_dev alpha) [0..<D] (A, y1)
          = Inr (A', map (\<lambda>d. map (\<lambda>i. y1 ! d ! i
                                 + alpha * dot_entries (ER d i)
                                     (map (\<lambda>j. rx A ! (recv d ! j)) [0..<length (recv d)]))
                              [0..<N d])
                       [0..<D])"
proof -
  let ?gh = "\<lambda>d. map (\<lambda>j. rx A ! (recv d ! j)) [0..<length (recv d)]"
  let ?Y = "\<lambda>d. map (\<lambda>i. y1 ! d ! i + alpha * dot_entries (ER d i) (?gh d)) [0..<N d]"
  define I where "I = (\<lambda>k (s :: 'a SpMat \<times> 'a list list).
      queue (fst s) = queue A \<and> mtx (fst s) = mtx A \<and> rx (fst s) = rx A
      \<and> length (exc (fst s)) = D \<and> (\<forall>d<D. k \<le> d \<longrightarrow> exc (fst s) ! d = exc A ! d)
      \<and> length (snd s) = D \<and> (\<forall>d<D. snd s ! d = (if d < k then ?Y d else y1 ! d)))"
  have "\<exists>s. foldM (remote_dev alpha) [0..<D] (A, y1) = Inr s \<and> I D s"
  proof (rule foldM_upt_inv)
    show "I 0 (A, y1)" using ex(1) y(1) by (simp add: I_def)
  next
    fix k and s :: "'a SpMat \<times> 'a list list"
    assume k: "k < D" and Is: "I k s"
    obtain Ac yc where s: "s = (Ac, yc)" by (cases s)
    from Is have f: "queue Ac = queue A" "mtx Ac = mtx A" "rx Ac = rx A" "length (exc Ac) = D"
      "\<forall>d<D. k \<le> d \<longrightarrow> exc Ac ! d = exc A ! d" "length yc = D"
      "\<forall>d<D. yc ! d = (if d < k then ?Y d else y1 ! d)"
      by (simp_all add: I_def s)
    have ek: "exc Ac ! k = exc A ! k" using f(5) k by simp
    have rk: "cols_to_recv (exc Ac ! k) = recv k"
      "length (vals_to_recv (exc Ac ! k)) = length (recv k)"
      using ex(2) k ek by simp_all
    have yk: "yc ! k = y1 ! k" "length (y1 ! k) = N k" using f(7) y(2) k by simp_all
    show "\<exists>s'. remote_dev alpha k s = Inr s' \<and> I (Suc k) s'"
    proof (cases "recv k = []")
      case True
      then have step: "remote_dev alpha k s = Inr s"
        by (simp add: remote_dev_def s rk(1))
      have "ER k i = []" if "i < N k" for i
      proof (rule ccontr)
        assume "ER k i \<noteq> []"
        then obtain e where "e \<in> set (ER k i)" by (cases "ER k i") auto
        with bd k that True show False by fastforce
      qed
      then have "y1 ! k = ?Y k"
        using yk(2) by (intro nth_equalityI) auto
      then have "I (Suc k) s"
        using Is k unfolding I_def s by (auto simp: less_Suc_eq)
      with step show ?thesis by blast
    next
      case False
      from st k False obtain S where S: "mtx A ! k = Some S" "csr_n S = N k"
        "has_rem S \<longrightarrow> block_shape (N k) (rem S)"
        "\<forall>i<N k. (if has_rem S then row_entries (rem S) i else []) = ER k i"
        by blast
      have inr: "\<forall>p\<in>set (recv k). p < length (rx A)" using rx k by blast
      have red: "redistribute (cols_to_recv (exc Ac ! k)) (rx Ac) (vals_to_recv (exc Ac ! k))
                 = Inr (?gh k)"
        unfolding rk(1) f(3) by (rule redistribute_ok[OF inr rk(2)])
      have g: "0 < num_workgroups (queue Ac ! k) * wgsize (queue Ac ! k)"
        using q k f(1) by (metis nth_mem)
      have b: "\<forall>i<N k. \<forall>e\<in>set (ER k i). fst e < length (?gh k)" using bd k by simp
      have yck: "length (yc ! k) = N k" using yk by simp
      have mr: "mul_remote (queue Ac ! k) S (?gh k) (yc ! k) alpha [Uploaded k] = Inr (?Y k)"
        using mul_remote_entries[OF g S(2) yck S(3,4) b, of alpha "[Uploaded k]"] yk(1) by simp
      let ?e' = "(exc Ac ! k)\<lparr>vals_to_recv := ?gh k, exc_rx := ?gh k\<rparr>"
      let ?s' = "(Ac\<lparr>exc := (exc Ac)[k := ?e']\<rparr>, yc[k := ?Y k])"
      have step: "remote_dev alpha k s = Inr ?s'"
        using False S(1) red mr
        by (simp add: remote_dev_def s rk(1) f(2) Let_def del: upt_Suc)
      have "I (Suc k) ?s'"
        unfolding I_def using f k by (auto simp: nth_list_update less_Suc_eq)
      with step show ?thesis by blast
    qed
  qed
  then obtain A' yc where s: "foldM (remote_dev alpha) [0..<D] (A, y1) = Inr (A', yc)"
    "I D (A', yc)" by (metis surj_pair)
  have "yc = map ?Y [0..<D]"
    by (rule nth_equalityI) (use s(2) in \<open>auto simp: I_def\<close>)
  with s(1) show ?thesis by blast
qed

lemma concat_parts:
  assumes "part_ok D n p"
  shows "concat (map (\<lambda>d. map (\<lambda>i. F (p ! d + i)) [0..<p ! (d + 1) - p ! d]) [0..<D])
         = map F [0..<n]"
proof -
  have seg: "map (\<lambda>i. F (a + i)) [0..<b - a] = map F [a..<b]" if "a \<le> b" for a b :: nat
    using that by (intro nth_equalityI) simp_all
  have upto: "concat (map (\<lambda>d. map (\<lambda>i. F (p ! d + i)) [0..<p ! (d + 1) - p ! d]) [0..<k])
              = map F [0..<p ! k]" if "k \<le> D" for k
    using that
  proof (induction k)
    case 0
    then show ?case using assms by (simp add: part_ok_def)
  next
    case (Suc k)
    have le: "p ! k \<le> p ! Suc k" using part_ok_nth_le(1)[OF assms, of k "Suc k"] Suc.prems by simp
    have "concat (map (\<lambda>d. map (\<lambda>i. F (p ! d + i)) [0..<p ! (d + 1) - p ! d]) [0..<Suc k])
          = map F [0..<p ! k] @ map F [p ! k..<p ! Suc k]"
      using Suc seg[OF le] by simp
    also have "\<dots> = map F ([0..<p ! k] @ [p ! k..<p ! Suc k])" by simp
    also have "[0..<p ! k] @ [p ! k..<p ! Suc k] = [0..<p ! Suc k]"
      by (rule upt_split) (use le in simp_all)
    finally show ?case .
  qed
  have "p ! D = n" using assms by (simp add: part_ok_def)
  with upto[of D] show ?thesis by simp
qed

lemma dot_row_split:
  fixes x :: "'a::comm_semiring_0 list"
  assumes "xe \<le> length x" "sorted_wrt (<) rc"
    and "\<forall>e\<in>set (row_entries M r). \<not> (xb \<le> fst e \<and> fst e < xe) \<longrightarrow> fst e \<in> set rc"
  shows "dot_entries (loc_entries M xb xe r) (take (xe - xb) (drop xb x))
         + dot_entries (rem_entries M xb xe (r2l_of rc) r) (map (\<lambda>c. x ! c) rc)
         = dot_row M x r"
proof -
  let ?P = "\<lambda>e :: nat \<times> 'a. xb \<le> fst e \<and> fst e < xe"
  have a: "(\<lambda>(c, v). xb \<le> c \<and> c < xe) = ?P"
    and b: "(\<lambda>(c, v). \<not> (xb \<le> c \<and> c < xe)) = (\<lambda>e. \<not> ?P e)"
    by (simp_all add: fun_eq_iff)
  show ?thesis
    unfolding dot_loc_entries[OF assms(1)] dot_rem_entries[OF assms(2,3)] dot_row_entries a b
    by (rule dot_entries_split)
qed

lemma ghost_buffer:
  assumes "sorted_wrt (<) cols" "sorted_wrt (<) s" "set s \<subseteq> set (cols :: nat list)"
    and "recv = filter (\<lambda>i. cols ! i \<in> set s) [0..<length cols]"
    and "rxs = map (\<lambda>i. x ! (cols ! i)) [0..<length cols]"
  shows "map (\<lambda>j. rxs ! (recv ! j)) [0..<length recv] = map (\<lambda>c. x ! c) s"
proof -
  have "map (\<lambda>j. rxs ! (recv ! j)) [0..<length recv] = map (\<lambda>p. rxs ! p) recv"
    by (intro nth_equalityI) simp_all
  also have "\<dots> = map (\<lambda>p. x ! (cols ! p)) recv"
    unfolding assms(4,5) by (rule map_cong) simp_all
  also have "\<dots> = map (\<lambda>c. x ! c) (map (\<lambda>i. cols ! i) recv)" by (simp add: comp_def)
  also have "map (\<lambda>i. cols ! i) recv = s"
    unfolding assms(4) positions_filter by (rule sorted_distinct_filter_eq[OF assms(1-3)])
  finally show ?thesis .
qed

lemma mul_ok:
  fixes M :: "'a::comm_semiring_0 csr_buffers" and A :: "'a SpMat"
  assumes g: "\<forall>dev\<in>set q. 0 < num_workgroups dev \<and> 0 < wgsize dev"
    and M: "csr_ok n M" "cols_ok m M"
    and p: "part_ok (length q) n prt" "part_ok (length q) m xpart"
    and x: "length x = m" and y: "length y = n"
    and rc: "length rc = length q"
      "\<forall>d<length q. set (rc ! d)
                = ghost_spec M (prt ! d) (prt ! (d + 1)) (xpart ! d) (xpart ! (d + 1))
                \<and> sorted_wrt (<) (rc ! d)"
    and A: "queue A = q" "\<forall>d<length q. device_store M prt xpart rc d (mtx A ! d)"
      "length (exc A) = length q"
    and e: "send_list rc = [] \<longrightarrow> rx A = []"
    and ne: "send_list rc \<noteq> [] \<longrightarrow>
                cidx A = build_cidx (send_list rc) xpart (length q)
                \<and> rx A = replicate (length (send_list rc)) 0
                \<and> (\<forall>d<length q.
                      exc A ! d = sent (send_list rc) (build_cidx (send_list rc) xpart (length q))
                                    xpart d (recvd (send_list rc) (rc ! d) no_exdata))"
  shows "\<exists>A' ys. mul A (parts xpart x) (parts prt y) alpha app = Inr (A', ys)
           \<and> concat ys = dense_spmv M n x y alpha app"
proof -
  let ?D = "length q"
  let ?xs = "parts xpart x"
  let ?ys = "parts prt y"
  define N where "N = (\<lambda>d. prt ! (d + 1) - prt ! d)"
  define EL where "EL = (\<lambda>d i. loc_entries M (xpart ! d) (xpart ! (d + 1)) (prt ! d + i))"
  define ER where
    "ER = (\<lambda>d i. rem_entries M (xpart ! d) (xpart ! (d + 1)) (r2l_of (rc ! d)) (prt ! d + i))"
  define gh where "gh = (\<lambda>d. map (\<lambda>c. x ! c) (rc ! d))"
  define F where "F = (\<lambda>r. if app then y ! r + alpha * dot_row M x r else alpha * dot_row M x r)"
  define Y1 where "Y1 = (\<lambda>d. map (\<lambda>i. if app then ?ys ! d ! i + alpha * dot_entries (EL d i) (?xs ! d)
                                   else alpha * dot_entries (EL d i) (?xs ! d)) [0..<N d])"
  define Y2 where "Y2 = (\<lambda>d. map (\<lambda>i. F (prt ! d + i)) [0..<N d])"
  have gq: "\<forall>dev\<in>set q. 0 < num_workgroups dev * wgsize dev" using g by simp
  have wq: "\<forall>dev\<in>set q. 0 < wgsize dev" using g by simp
  have xd: "?xs ! d = take (xpart ! (d + 1) - xpart ! d) (drop (xpart ! d) x)" if "d < ?D" for d
    by (rule parts_nth(1)[OF p(2) that x])
  have xe: "xpart ! (d + 1) \<le> length x" if "d < ?D" for d
    using part_ok_nth_le(2)[OF p(2), of "d + 1" "d + 1"] that x by simp
  have ly: "length ?ys = ?D" using p(1) by (simp add: length_parts part_ok_def)
  have yd: "length (?ys ! d) = N d" if "d < ?D" for d
    unfolding N_def by (rule parts_nth(2)[OF p(1) that y])
  have ydi: "?ys ! d ! i = y ! (prt ! d + i)" if "d < ?D" "i < N d" for d i
    using parts_nth(3)[OF p(1) that(1) y] that(2) by (simp add: N_def)
  have srt: "sorted_wrt (<) (rc ! d)" if "d < ?D" for d using rc(2) that by simp
  have ghost: "\<forall>e\<in>set (row_entries M (prt ! d + i)).
                 \<not> (xpart ! d \<le> fst e \<and> fst e < xpart ! (d + 1)) \<longrightarrow> fst e \<in> set (rc ! d)"
    if "d < ?D" "i < N d" for d i
  proof (rule row_entries_ghost)
    show "prt ! d + i \<in> set [prt ! d..<prt ! (d + 1)]" using that(2) by (simp add: N_def)
    show "ghost_spec M (prt ! d) (prt ! (d + 1)) (xpart ! d) (xpart ! (d + 1)) \<subseteq> set (rc ! d)"
      using rc(2) that(1) by simp
  qed
  have bdR: "fst e < length (rc ! d)" if "d < ?D" "i < N d" "e \<in> set (ER d i)" for d i e
    using rem_entries_bound[OF srt[OF that(1)] _ ghost[OF that(1,2)]] that(3)
    unfolding ER_def by blast
  have row: "dot_entries (EL d i) (?xs ! d) + dot_entries (ER d i) (gh d) = dot_row M x (prt ! d + i)"
    if "d < ?D" "i < N d" for d i
    unfolding EL_def ER_def gh_def xd[OF that(1)]
    by (rule dot_row_split[OF xe[OF that(1)] srt[OF that(1)] ghost[OF that]])
  have Y2: "Y2 d = map (\<lambda>i. Y1 d ! i + alpha * dot_entries (ER d i) (gh d)) [0..<N d]"
    if "d < ?D" for d
    unfolding Y2_def
  proof (rule map_cong[OF refl])
    fix i assume "i \<in> set [0..<N d]"
    then have i: "i < N d" by simp
    have r: "dot_row M x (prt ! d + i) = dot_entries (EL d i) (?xs ! d) + dot_entries (ER d i) (gh d)"
      using row[OF that i] by simp
    show "F (prt ! d + i) = Y1 d ! i + alpha * dot_entries (ER d i) (gh d)"
      unfolding F_def r using i ydi[OF that i]
      by (simp add: Y1_def distrib_left add.assoc)
  qed
  have fin: "concat (map Y2 [0..<?D]) = dense_spmv M n x y alpha app"
    unfolding Y2_def N_def dense_spmv_def F_def[symmetric] by (rule concat_parts[OF p(1)])
  have stL: "\<forall>d<?D. case mtx A ! d of
                     None \<Rightarrow> N d = 0
                   | Some S \<Rightarrow> csr_n S = N d \<and> (has_loc S \<longrightarrow> block_shape (N d) (loc S))
                       \<and> (\<forall>i<N d. (if has_loc S then row_entries (loc S) i else []) = EL d i)"
  proof (intro allI impI)
    fix d assume d: "d < ?D"
    from A(2) d have ds: "device_store M prt xpart rc d (mtx A ! d)" by blast
    show "case mtx A ! d of
            None \<Rightarrow> N d = 0
          | Some S \<Rightarrow> csr_n S = N d \<and> (has_loc S \<longrightarrow> block_shape (N d) (loc S))
              \<and> (\<forall>i<N d. (if has_loc S then row_entries (loc S) i else []) = EL d i)"
    proof (cases "prt ! d < prt ! (d + 1)")
      case False
      with ds have "mtx A ! d = None" by (simp add: device_store_def)
      with False show ?thesis by (simp add: N_def)
    next
      case True
      with ds obtain S where S: "mtx A ! d = Some S"
        "store_spec M (prt ! d) (prt ! (d + 1)) (xpart ! d) (xpart ! (d + 1)) (rc ! d) S"
        unfolding device_store_def by auto
      from S(2) show ?thesis unfolding S(1) store_spec_def N_def EL_def by simp
    qed
  qed
  have bdL: "\<forall>d<?D. \<forall>i<N d. \<forall>e\<in>set (EL d i). fst e < length (?xs ! d)"
  proof (intro allI impI ballI)
    fix d i e assume d: "d < ?D" and "i < N d" and e: "e \<in> set (EL d i)"
    show "fst e < length (?xs ! d)"
      unfolding xd[OF d] using e unfolding EL_def by (rule loc_entries_bound[OF _ xe[OF d]])
  qed
  have loc: "foldM (local_dev B ?xs alpha app) [0..<?D] ?ys = Inr (map Y1 [0..<?D])"
    if "queue B = q" "mtx B = mtx A" for B :: "'a SpMat"
  proof -
    have a: "length (queue B) = ?D" using that by simp
    have b: "\<forall>dev\<in>set (queue B). 0 < num_workgroups dev * wgsize dev" using that gq by simp
    have c: "\<forall>d<?D. case mtx B ! d of
                     None \<Rightarrow> N d = 0
                   | Some S \<Rightarrow> csr_n S = N d \<and> (has_loc S \<longrightarrow> block_shape (N d) (loc S))
                       \<and> (\<forall>i<N d. (if has_loc S then row_entries (loc S) i else []) = EL d i)"
      using stL that by simp
    have d: "\<forall>d<?D. length (?ys ! d) = N d" using yd by blast
    show ?thesis unfolding Y1_def by (rule local_loop[OF a b c bdL ly d])
  qed
  show ?thesis
  proof (cases "send_list rc = []")
    case True
    then have rxA: "rx A = []" using e by blast
    have m: "mul A ?xs ?ys alpha app = Inr (A, map Y1 [0..<?D])"
      using loc[OF A(1) refl] by (simp add: mul_def rxA A(1))
    have none: "rc ! d = []" if "d < ?D" for d
    proof -
      have "rc ! d \<in> set rc" using that rc(1) by simp
      then have "set (rc ! d) \<subseteq> set (send_list rc)" unfolding send_list_set by blast
      with True show ?thesis by simp
    qed
    have "Y2 d = Y1 d" if "d < ?D" for d
    proof -
      have "ER d i = []" if "i < N d" for i
      proof (rule ccontr)
        assume "ER d i \<noteq> []"
        then obtain e where "e \<in> set (ER d i)" by (cases "ER d i") auto
        from bdR[OF \<open>d < ?D\<close> that this] none[OF \<open>d < ?D\<close>] show False by simp
      qed
      then have "Y2 d = map (\<lambda>i. Y1 d ! i) [0..<N d]"
        unfolding Y2[OF that] by (intro map_cong[OF refl]) simp
      also have "\<dots> = Y1 d" using map_nth[of "Y1 d"] by (simp add: Y1_def)
      finally show ?thesis .
    qed
    then have "map Y2 [0..<?D] = map Y1 [0..<?D]" by simp
    with fin m show ?thesis by simp
  next
    case False
    let ?cols = "send_list rc"
    let ?ci = "build_cidx ?cols xpart ?D"
    define recv where "recv = (\<lambda>d. filter (\<lambda>i. ?cols ! i \<in> set (rc ! d)) [0..<length ?cols])"
    from ne False have ciA: "cidx A = ?ci" and rxA: "rx A = replicate (length ?cols) 0"
      and exA: "\<forall>d<?D. exc A ! d = sent ?cols ?ci xpart d (recvd ?cols (rc ! d) no_exdata)"
      by simp_all
    have sc: "sorted_wrt (<) ?cols" by (rule send_list_sorted)
    have sc': "sorted ?cols" using sc by (simp add: strict_sorted_iff)
    have xp: "sorted xpart" "length xpart = ?D + 1" "xpart ! ?D = m"
      using p(2) by (simp_all add: part_ok_def)
    have lb: "\<forall>d\<le>?D. lb_pos ?cols (xpart ! d) (?ci ! d)"
      using build_cidx_ok(2)[OF sc' xp(1,2)] by blast
    have sub: "set (rc ! d) \<subseteq> set ?cols" if "d < ?D" for d
    proof -
      have "rc ! d \<in> set rc" using that rc(1) by simp
      then show ?thesis unfolding send_list_set by blast
    qed
    have below: "c < m" if "c \<in> set ?cols" for c
    proof -
      from that obtain s where "s \<in> set rc" "c \<in> set s" unfolding send_list_set by blast
      then obtain d where d: "d < ?D" "c \<in> set (rc ! d)"
        using rc(1) by (metis in_set_conv_nth)
      have "prt ! (d + 1) \<le> n" using part_ok_nth_le(2)[OF p(1), of "d + 1" "d + 1"] d(1) by simp
      from ghost_spec_cols[OF M(1) this] d rc(2) have "c \<in> set (col M)" by blast
      with M(2) show ?thesis by (simp add: cols_ok_def list_all_iff)
    qed
    have top: "?ci ! ?D = length ?cols"
    proof (rule ccontr)
      assume ne: "?ci ! ?D \<noteq> length ?cols"
      have l: "lb_pos ?cols m (?ci ! ?D)" using lb xp(3) by (metis order_refl)
      then have "?ci ! ?D < length ?cols" using ne by (simp add: lb_pos_def)
      with l have "\<not> ?cols ! (?ci ! ?D) < m" unfolding lb_pos_def by blast
      moreover have "?cols ! (?ci ! ?D) \<in> set ?cols" using \<open>?ci ! ?D < length ?cols\<close> by simp
      ultimately show False using below by blast
    qed
    have mono: "?ci ! d \<le> ?ci ! (d + 1)" if "d < ?D" for d
    proof -
      have "xpart ! d \<le> xpart ! (d + 1)" using part_ok_nth_le(1)[OF p(2), of d "d + 1"] that by simp
      moreover have "lb_pos ?cols (xpart ! d) (?ci ! d)"
        "lb_pos ?cols (xpart ! (d + 1)) (?ci ! (d + 1))" using lb that by simp_all
      ultimately show ?thesis using lb_pos_mono by blast
    qed
    have ef: "cols_to_recv (exc A ! d) = recv d"
      "vals_to_recv (exc A ! d) = replicate (length (rc ! d)) 0"
      "cols_to_send (exc A ! d) = map (\<lambda>i. ?cols ! i - xpart ! d) [?ci ! d..<?ci ! (d + 1)]"
      "length (vals_to_send (exc A ! d)) = ?ci ! (d + 1) - ?ci ! d" if "d < ?D" for d
    proof -
      have a: "exc A ! d = sent ?cols ?ci xpart d (recvd ?cols (rc ! d) no_exdata)"
        using exA that by blast
      show "cols_to_recv (exc A ! d) = recv d" unfolding recv_def
        by (rule exc_fields(1)[OF a mono[OF that]])
      show "vals_to_recv (exc A ! d) = replicate (length (rc ! d)) 0"
        by (rule exc_fields(2)[OF a mono[OF that]])
      show "cols_to_send (exc A ! d) = map (\<lambda>i. ?cols ! i - xpart ! d) [?ci ! d..<?ci ! (d + 1)]"
        by (rule exc_fields(3)[OF a mono[OF that]])
      show "length (vals_to_send (exc A ! d)) = ?ci ! (d + 1) - ?ci ! d"
        by (rule exc_fields(4)[OF a mono[OF that]])
    qed
    have lr: "length (recv d) = length (rc ! d)" if "d < ?D" for d
      unfolding recv_def by (rule positions_count[OF sc srt[OF that] sub[OF that]])
    have g1: "length (queue A) = ?D" using A(1) by simp
    have g2: "\<forall>dev\<in>set (queue A). 0 < wgsize dev" using A(1) wq by simp
    have g3: "length (rx A) = length ?cols" using rxA by simp
    have g4: "\<forall>d<?D. cols_to_send (exc A ! d)
                 = map (\<lambda>i. ?cols ! i - xpart ! d) [?ci ! d..<?ci ! (d + 1)]
              \<and> length (vals_to_send (exc A ! d)) = ?ci ! (d + 1) - ?ci ! d"
      using ef(3,4) by blast
    from gather_loop[OF p(2) x g1 g2 ciA lb g3 A(3) g4 top] obtain A1 where A1:
      "foldM (gather_dev ?xs) [0..<?D] A = Inr A1 \<and> queue A1 = queue A \<and> mtx A1 = mtx A
       \<and> rx A1 = map (\<lambda>i. x ! (?cols ! i)) [0..<length ?cols] \<and> length (exc A1) = ?D
       \<and> (\<forall>d<?D. cols_to_recv (exc A1 ! d) = cols_to_recv (exc A ! d)
                 \<and> vals_to_recv (exc A1 ! d) = vals_to_recv (exc A ! d))"
      by blast
    then have ga: "foldM (gather_dev ?xs) [0..<?D] A = Inr A1"
      and q1: "queue A1 = q" and m1: "mtx A1 = mtx A"
      and rx1: "rx A1 = map (\<lambda>i. x ! (?cols ! i)) [0..<length ?cols]"
      and le1: "length (exc A1) = ?D"
      and ex1: "\<forall>d<?D. cols_to_recv (exc A1 ! d) = cols_to_recv (exc A ! d)
                 \<and> vals_to_recv (exc A1 ! d) = vals_to_recv (exc A ! d)"
      using A(1) by simp_all
    have r1: "length (queue A1) = ?D" using q1 by simp
    have r2: "\<forall>dev\<in>set (queue A1). 0 < num_workgroups dev * wgsize dev" using q1 gq by simp
    have r3: "\<forall>d<?D. cols_to_recv (exc A1 ! d) = recv d
                \<and> length (vals_to_recv (exc A1 ! d)) = length (recv d)"
      using ex1 ef(1,2) lr by simp
    have r4: "\<forall>d<?D. \<forall>p\<in>set (recv d). p < length (rx A1)"
      unfolding rx1 recv_def by simp
    have r5: "\<forall>d<?D. recv d \<noteq> [] \<longrightarrow>
               (\<exists>S. mtx A1 ! d = Some S \<and> csr_n S = N d
                  \<and> (has_rem S \<longrightarrow> block_shape (N d) (rem S))
                  \<and> (\<forall>i<N d. (if has_rem S then row_entries (rem S) i else []) = ER d i))"
    proof (intro allI impI)
      fix d assume d: "d < ?D" and "recv d \<noteq> []"
      then have "rc ! d \<noteq> []" using lr[OF d] by auto
      then have "ghost_spec M (prt ! d) (prt ! (d + 1)) (xpart ! d) (xpart ! (d + 1)) \<noteq> {}"
        using rc(2) d by (metis set_empty)
      then have rows: "prt ! d < prt ! (d + 1)"
        by (rule contrapos_np) (simp add: ghost_spec_def)
      from A(2) d have "device_store M prt xpart rc d (mtx A ! d)" by blast
      with rows obtain S where S: "mtx A ! d = Some S"
        "store_spec M (prt ! d) (prt ! (d + 1)) (xpart ! d) (xpart ! (d + 1)) (rc ! d) S"
        unfolding device_store_def by auto
      from S(2) have "csr_n S = N d \<and> (has_rem S \<longrightarrow> block_shape (N d) (rem S))
                  \<and> (\<forall>i<N d. (if has_rem S then row_entries (rem S) i else []) = ER d i)"
        unfolding store_spec_def N_def ER_def by blast
      with S(1) m1 show "\<exists>S. mtx A1 ! d = Some S \<and> csr_n S = N d
                  \<and> (has_rem S \<longrightarrow> block_shape (N d) (rem S))
                  \<and> (\<forall>i<N d. (if has_rem S then row_entries (rem S) i else []) = ER d i)"
        by simp
    qed
    have r6: "\<forall>d<?D. \<forall>i<N d. \<forall>e\<in>set (ER d i). fst e < length (recv d)"
      using bdR lr by simp
    have r7: "length (map Y1 [0..<?D]) = ?D" by simp
    have r8: "\<forall>d<?D. length (map Y1 [0..<?D] ! d) = N d" by (simp add: Y1_def)
    from remote_loop[OF r1 r2 le1 r3 r4 r5 r6 r7 r8, of alpha] obtain A2 where A2:
      "foldM (remote_dev alpha) [0..<?D] (A1, map Y1 [0..<?D])
          = Inr (A2, map (\<lambda>d. map (\<lambda>i. map Y1 [0..<?D] ! d ! i
                                 + alpha * dot_entries (ER d i)
                                     (map (\<lambda>j. rx A1 ! (recv d ! j)) [0..<length (recv d)]))
                              [0..<N d])
                       [0..<?D])"
      by blast
    have "map (\<lambda>d. map (\<lambda>i. map Y1 [0..<?D] ! d ! i
                                 + alpha * dot_entries (ER d i)
                                     (map (\<lambda>j. rx A1 ! (recv d ! j)) [0..<length (recv d)]))
                              [0..<N d])
                       [0..<?D] = map Y2 [0..<?D]"
    proof (rule map_cong[OF refl])
      fix d assume "d \<in> set [0..<?D]"
      then have d: "d < ?D" by simp
      have b: "map (\<lambda>j. rx A1 ! (recv d ! j)) [0..<length (recv d)] = gh d"
        unfolding gh_def
        by (rule ghost_buffer[OF sc srt[OF d] sub[OF d] _ rx1]) (simp add: recv_def)
      show "map (\<lambda>i. map Y1 [0..<?D] ! d ! i
                                 + alpha * dot_entries (ER d i)
                                     (map (\<lambda>j. rx A1 ! (recv d ! j)) [0..<length (recv d)]))
                              [0..<N d] = Y2 d"
        unfolding b Y2[OF d] using d by simp
    qed
    with A2 have rem: "foldM (remote_dev alpha) [0..<?D] (A1, map Y1 [0..<?D])
                       = Inr (A2, map Y2 [0..<?D])" by simp
    have nz: "length (rx A) \<noteq> 0" "length (rx A1) \<noteq> 0" using False rxA rx1 by simp_all
    have "mul A ?xs ?ys alpha app = Inr (A2, map Y2 [0..<?D])"
      unfolding mul_def Let_def A(1) using nz ga loc[OF q1 m1] rem by simp
    with fin show ?thesis by blast
  qed
qed

text \<open>Construction followed by a multiplication computes the dense reference product
  on every well-formed input, for every number of devices and both partitions as the
  partitioner's contract allows them, provided no device that owns rows starts at row
  \<open>0\<close> with a column range that starts above \<open>0\<close> (\<open>fast_path_safe\<close>).\<close>

lemma construct_and_mul_correct:
  fixes M :: "'a::comm_semiring_0 csr_buffers"
  assumes "1 \<le> length q" "\<forall>dev\<in>set q. 0 < num_workgroups dev \<and> 0 < wgsize dev"
    and "csr_ok n M" "cols_ok m M"
    and "part_ok (length q) n prt" "part_ok (length q) m xpart"
    and "fast_path_safe prt xpart (length q)"
    and "length x = m" "length y = n"
    and "vectors_fit n M"
  shows "construct_and_mul q prt xpart n m M x y alpha app
         = Inr (dense_spmv M n x y alpha app)"
proof -
  from SpMat_new_ok[OF assms(1,3,4,5,6,7,10)] obtain rc and A :: "'a SpMat" where all:
    "SpMat_new q prt xpart n m M = Inr A
          \<and> length rc = length q
          \<and> (\<forall>d<length q. set (rc ! d)
                = ghost_spec M (prt ! d) (prt ! (d + 1)) (xpart ! d) (xpart ! (d + 1))
                \<and> sorted_wrt (<) (rc ! d))
          \<and> queue A = q \<and> length (mtx A) = length q
          \<and> (\<forall>d<length q. device_store M prt xpart rc d (mtx A ! d))
          \<and> length (exc A) = length q
          \<and> (send_list rc = [] \<longrightarrow> rx A = [])
          \<and> (send_list rc \<noteq> [] \<longrightarrow>
                cidx A = build_cidx (send_list rc) xpart (length q)
                \<and> rx A = replicate (length (send_list rc)) 0
                \<and> (\<forall>d<length q.
                      exc A ! d = sent (send_list rc) (build_cidx (send_list rc) xpart (length q))
                                    xpart d (recvd (send_list rc) (rc ! d) no_exdata)))"
    by blast
  then have new: "SpMat_new q prt xpart n m M = Inr A"
    and rc: "length rc = length q"
      "\<forall>d<length q. set (rc ! d)
                = ghost_spec M (prt ! d) (prt ! (d + 1)) (xpart ! d) (xpart ! (d + 1))
                \<and> sorted_wrt (<) (rc ! d)"
    and A: "queue A = q" "\<forall>d<length q. device_store M prt xpart rc d (mtx A ! d)"
      "length (exc A) = length q"
    and e: "send_list rc = [] \<longrightarrow> rx A = []"
    and ne: "send_list rc \<noteq> [] \<longrightarrow>
                cidx A = build_cidx (send_list rc) xpart (length q)
                \<and> rx A = replicate (length (send_list rc)) 0
                \<and> (\<forall>d<length q.
                      exc A ! d = sent (send_list rc) (build_cidx (send_list rc) xpart (length q))
                                    xpart d (recvd (send_list rc) (rc ! d) no_exdata))"
    by simp_all
  from mul_ok[OF assms(2,3,4,5,6,8,9) rc A e ne, of alpha app] obtain A' ys where
    m: "mul A (parts xpart x) (parts prt y) alpha app = Inr (A', ys)"
    "concat ys = dense_spmv M n x y alpha app"
    by blast
  show ?thesis by (simp add: construct_and_mul_def new m)
qed

lemma construct_and_mul_correct_example:
  "construct_and_mul [dev0, dev0] [0, 2, 4] [0, 2, 4] 4 4 ex_M [1, 10, 100, 1000] [0, 0, 0, 0] 1 False
   = Inr (dense_spmv ex_M 4 [1, 10, 100, 1000] [0, 0, 0, 0] 1 False)"
proof -
  have a: "1 \<le> length [dev0, dev0]" by simp
  have b: "\<forall>dev\<in>set [dev0, dev0]. 0 < num_workgroups dev \<and> 0 < wgsize dev"
    by (simp add: dev0_def)
  have c: "csr_ok 4 ex_M" by code_simp
  have d: "cols_ok 4 ex_M" by code_simp
  have e: "part_ok (length [dev0, dev0]) 4 [0, 2, 4]" by code_simp
  have f: "fast_path_safe [0, 2, 4] [0, 2, 4] (length [dev0, dev0])"
    by (simp add: fast_path_safe_def)
  have g: "length [1, 10, 100, 1000 :: int] = 4" "length [0, 0, 0, 0 :: int] = 4" by simp_all
  have h: "vectors_fit 4 ex_M" by code_simp
  show ?thesis by (rule construct_and_mul_correct[OF a b c d e e f g h])
qed

end
